theory Spec2Isabelle
  imports Main "HOL-Library.Word" "HOL-Library.Multiset"
begin

unbundle bit_operations_syntax

section \<open>The Arrow C Data Interface descriptors (ArrowCData.h)\<close>

text \<open>
  Pointers are abstract addresses; the null pointer is address 0. A function pointer
  (the \<open>release\<close> callback) is an address too. An \<open>int64_t\<close> is a 64-bit word, read
  as a signed value by \<open>sint\<close>.
\<close>

type_synonym addr = nat

definition NULL :: addr where
  "NULL = 0"

type_synonym int64_t = "64 word"

text \<open>
  \<^verbatim>\<open>
  #define ARROW_FLAG_DICTIONARY_ORDERED 1
  #define ARROW_FLAG_NULLABLE 2
  #define ARROW_FLAG_MAP_KEYS_SORTED 4
  \<close>
  The constants are masks for the \<open>int64_t flags\<close> field of a schema.
\<close>

definition ARROW_FLAG_DICTIONARY_ORDERED :: int64_t where
  "ARROW_FLAG_DICTIONARY_ORDERED = 1"

definition ARROW_FLAG_NULLABLE :: int64_t where
  "ARROW_FLAG_NULLABLE = 2"

definition ARROW_FLAG_MAP_KEYS_SORTED :: int64_t where
  "ARROW_FLAG_MAP_KEYS_SORTED = 4"

text \<open>
  \<open>struct ArrowSchema\<close> and \<open>struct ArrowArray\<close>, field by field in the order of the
  header. The two structs share the field names \<open>n_children\<close>, \<open>children\<close>,
  \<open>dictionary\<close>, \<open>release\<close> and \<open>private_data\<close>; they are told apart by the
  qualified names \<open>ArrowSchema.release\<close> and \<open>ArrowArray.release\<close>. The field
  \<open>length\<close> of \<open>struct ArrowArray\<close> is written \<open>length_a\<close>.
\<close>

record ArrowSchema =
  format :: addr
  name :: addr
  metadata :: addr
  flags :: int64_t
  n_children :: int64_t
  children :: addr
  dictionary :: addr
  release :: addr
  private_data :: addr

record ArrowArray =
  length_a :: int64_t
  null_count :: int64_t
  offset :: int64_t
  n_buffers :: int64_t
  n_children :: int64_t
  buffers :: addr
  children :: addr
  dictionary :: addr
  release :: addr
  private_data :: addr

section \<open>Memory and effects\<close>

text \<open>
  The memory is an explicit store, one partial map per kind of object: the schema
  descriptors, the array descriptors, the arrays of pointers (a \<open>children\<close> or a
  \<open>buffers\<close> container) and the raw blocks (strings, buffers, private data). An
  address outside the domain of a map holds no object of that kind: dereferencing it
  is undefined behaviour in C, and a fault (\<open>None\<close>) here.
\<close>

record memory =
  schemas :: "addr \<rightharpoonup> ArrowSchema"
  arrays :: "addr \<rightharpoonup> ArrowArray"
  pointer_arrays :: "addr \<rightharpoonup> addr list"
  blocks :: "addr \<rightharpoonup> 8 word list"

text \<open>
  What an operation does to the outside besides its final memory, in program order:
  the stores it performs (the only field ever stored to is \<open>release\<close>: the object
  and the value stored), the calls it makes through a function pointer (callee and
  argument) and the objects it deallocates. A load is not an effect; a load from an
  address that holds no object is a fault.
\<close>

datatype effect =
  Store_release addr addr
  | Call addr addr
  | Dealloc addr

type_synonym 'a exec = "memory \<Rightarrow> ('a \<times> effect list) option"

section \<open>The null-callback adapter (ArrowCData.c)\<close>

text \<open>The assignment \<open>p->release = v\<close> on a schema and on an array descriptor.\<close>

definition store_schema_release :: "addr \<Rightarrow> addr \<Rightarrow> memory exec" where
  "store_schema_release p v m =
     (case schemas m p of
        None \<Rightarrow> None
      | Some s \<Rightarrow>
          Some (m\<lparr>schemas := (schemas m)(p \<mapsto> s\<lparr>ArrowSchema.release := v\<rparr>)\<rparr>,
            [Store_release p v]))"

definition store_array_release :: "addr \<Rightarrow> addr \<Rightarrow> memory exec" where
  "store_array_release p v m =
     (case arrays m p of
        None \<Rightarrow> None
      | Some a \<Rightarrow>
          Some (m\<lparr>arrays := (arrays m)(p \<mapsto> a\<lparr>ArrowArray.release := v\<rparr>)\<rparr>,
            [Store_release p v]))"

text \<open>
  \<^verbatim>\<open>
  void ArrowSwiftClearReleaseSchema(struct ArrowSchema* arrowSchema) {
      if(arrowSchema) {
          arrowSchema->release = NULL;
      }
  }
  \<close>
\<close>

definition ArrowSwiftClearReleaseSchema :: "addr \<Rightarrow> memory exec" where
  "ArrowSwiftClearReleaseSchema arrowSchema m =
     (if arrowSchema \<noteq> NULL then store_schema_release arrowSchema NULL m
      else Some (m, []))"

text \<open>
  \<^verbatim>\<open>
  void ArrowSwiftClearReleaseArray(struct ArrowArray* arrowArray) {
      if(arrowArray) {
          arrowArray->release = NULL;
      }
  }
  \<close>
\<close>

definition ArrowSwiftClearReleaseArray :: "addr \<Rightarrow> memory exec" where
  "ArrowSwiftClearReleaseArray arrowArray m =
     (if arrowArray \<noteq> NULL then store_array_release arrowArray NULL m
      else Some (m, []))"

section \<open>The release protocol\<close>

text \<open>
  The release callbacks themselves are not part of the C sources: the header declares
  the field \<open>release\<close> and nothing more. What follows is the protocol of section 4.1
  of the specification, for a memory in which every callback is a conforming release
  implementation.
\<close>

text \<open>
  Modelled from the spec: reading the \<open>children\<close> sequence of a descriptor, the
  first \<open>n_children\<close> pointers of the container its \<open>children\<close> field points to
  ("ordered sequence of owned pointers to child descriptors, length = n_children").
  A null container holds no child; reading children through a null or dangling
  container, or past the end of the container, is a fault.
\<close>

definition pointer_array_prefix ::
  "int64_t \<Rightarrow> addr \<Rightarrow> memory \<Rightarrow> addr list option" where
  "pointer_array_prefix n a m =
     (if a = NULL then (if sint n \<le> 0 then Some [] else None)
      else (case pointer_arrays m a of
              None \<Rightarrow> None
            | Some ps \<Rightarrow>
                if int (length ps) < sint n then None else Some (take (nat (sint n)) ps)))"

text \<open>
  Modelled from the spec: "free \<open>children\<close> (the container of pointers)". Freeing
  the null pointer does nothing; freeing an address that holds no pointer array is a
  fault.
\<close>

definition free_pointer_array :: "addr \<Rightarrow> memory exec" where
  "free_pointer_array a m =
     (if a = NULL then Some (m, [])
      else (case pointer_arrays m a of
              None \<Rightarrow> None
            | Some ps \<Rightarrow>
                Some (m\<lparr>pointer_arrays := (pointer_arrays m)(a := None)\<rparr>, [Dealloc a])))"

text \<open>
  Modelled from the spec: "free \<open>metadata\<close>/\<open>format\<close>/\<open>name\<close> storage if owned,
  free \<open>private_data\<close> in an implementation-specific way". Which storage a producer
  owns is the producer's knowledge, not a field of the descriptor: it is the parameter
  \<open>own\<close>, the set of addresses of the blocks the producer owns. A pointer that is
  null or not owned (a string literal, private data that is a handle and no block) is
  left alone; an owned block is deallocated, and deallocating an owned block that is
  not allocated (a second free) is a fault.
\<close>

fun free_owned_storage :: "addr set \<Rightarrow> addr list \<Rightarrow> memory exec" where
  "free_owned_storage own [] m = Some (m, [])"
| "free_owned_storage own (a # as) m =
     (if a = NULL \<or> a \<notin> own then free_owned_storage own as m
      else (case blocks m a of
              None \<Rightarrow> None
            | Some b \<Rightarrow>
               (case free_owned_storage own as (m\<lparr>blocks := (blocks m)(a := None)\<rparr>) of
                  None \<Rightarrow> None
                | Some (m', es) \<Rightarrow> Some (m', Dealloc a # es))))"

text \<open>
  Modelled from the spec: the pointers of a schema descriptor whose storage its
  release frees, in the order of section 4.1: \<open>metadata\<close>, \<open>format\<close>, \<open>name\<close>,
  then \<open>private_data\<close>.
\<close>

definition schema_storage :: "ArrowSchema \<Rightarrow> addr list" where
  "schema_storage s = [metadata s, format s, name s, ArrowSchema.private_data s]"

text \<open>
  Modelled from the spec: "deallocating the node itself", for a schema descriptor.
  Deallocating an address that holds no descriptor is a fault.
\<close>

definition free_schema :: "addr \<Rightarrow> memory exec" where
  "free_schema p m =
     (case schemas m p of
        None \<Rightarrow> None
      | Some s \<Rightarrow> Some (m\<lparr>schemas := (schemas m)(p := None)\<rparr>, [Dealloc p]))"

text \<open>
  Modelled from the spec: the release operation of a schema descriptor (section 4.1).
  Invoking release on a node whose \<open>release\<close> field is null is a fault ("must not
  be released"). Otherwise the callback is called on the node and, in this order,
  releases every child in \<open>children\<close> (each child releases its own children first),
  releases \<open>dictionary\<close> if present, frees the \<open>children\<close> container, frees the
  storage of \<open>metadata\<close>, \<open>format\<close> and \<open>name\<close> if owned, frees
  \<open>private_data\<close>, and sets its own \<open>release\<close> field to null: this is
  \<open>release_schema_body\<close>. Then the node itself is deallocated:
  \<open>release_schema\<close> is the body followed by that deallocation.

  A child or dictionary whose \<open>release\<close> field is null carries no ownership
  ("it must not be released and must not be freed"; clearing the callback of a
  still-owned node "leaks the node and its subtree"): \<open>release_schema_if_live\<close>
  reads the field and leaves such a node alone.

  The argument \<open>k\<close> bounds the depth of nested release calls; a run that exceeds it
  is \<open>None\<close> like a fault. A memory may hold a cyclic chain of descriptors, on which
  no bound suffices. The four functions terminate: a call of the body lowers the
  bound, and with the bound unchanged the children call the live test, which calls the
  release, which calls the body.
\<close>

function (sequential) release_schema_body :: "addr set \<Rightarrow> nat \<Rightarrow> addr \<Rightarrow> memory exec"
  and release_schema :: "addr set \<Rightarrow> nat \<Rightarrow> addr \<Rightarrow> memory exec"
  and release_schema_if_live :: "addr set \<Rightarrow> nat \<Rightarrow> addr \<Rightarrow> memory exec"
  and release_schema_children :: "addr set \<Rightarrow> nat \<Rightarrow> addr list \<Rightarrow> memory exec" where
  "release_schema_body own 0 p m = None"
| "release_schema_body own (Suc k) p m =
     (case schemas m p of
        None \<Rightarrow> None
      | Some s \<Rightarrow>
          if ArrowSchema.release s = NULL then None
          else (case pointer_array_prefix (ArrowSchema.n_children s) (ArrowSchema.children s) m of
            None \<Rightarrow> None
          | Some cs \<Rightarrow>
             (case release_schema_children own k cs m of
                None \<Rightarrow> None
              | Some (m1, e1) \<Rightarrow>
                 (case (if ArrowSchema.dictionary s = NULL then Some (m1, [])
                        else release_schema_if_live own k (ArrowSchema.dictionary s) m1) of
                    None \<Rightarrow> None
                  | Some (m2, e2) \<Rightarrow>
                     (case free_pointer_array (ArrowSchema.children s) m2 of
                        None \<Rightarrow> None
                      | Some (m3, e3) \<Rightarrow>
                         (case free_owned_storage own (schema_storage s) m3 of
                            None \<Rightarrow> None
                          | Some (m4, e4) \<Rightarrow>
                             (case store_schema_release p NULL m4 of
                                None \<Rightarrow> None
                              | Some (m5, e5) \<Rightarrow>
                                  Some (m5, Call (ArrowSchema.release s) p #
                                    e1 @ e2 @ e3 @ e4 @ e5))))))))"
| "release_schema own k p m =
     (case release_schema_body own k p m of
        None \<Rightarrow> None
      | Some (m5, e) \<Rightarrow>
         (case free_schema p m5 of
            None \<Rightarrow> None
          | Some (m6, e6) \<Rightarrow> Some (m6, e @ e6)))"
| "release_schema_if_live own k c m =
     (case schemas m c of
        None \<Rightarrow> None
      | Some s \<Rightarrow>
          if ArrowSchema.release s = NULL then Some (m, []) else release_schema own k c m)"
| "release_schema_children own k [] m = Some (m, [])"
| "release_schema_children own k (c # cs) m =
     (case release_schema_if_live own k c m of
        None \<Rightarrow> None
      | Some (m1, e1) \<Rightarrow>
         (case release_schema_children own k cs m1 of
            None \<Rightarrow> None
          | Some (m2, e2) \<Rightarrow> Some (m2, e1 @ e2)))"
  by pat_completeness auto
termination
  by (relation "measures [
        (\<lambda>x. case x of Inl (Inl (own, k, p, m)) \<Rightarrow> k | Inl (Inr (own, k, p, m)) \<Rightarrow> k
           | Inr (Inl (own, k, p, m)) \<Rightarrow> k | Inr (Inr (own, k, cs, m)) \<Rightarrow> k),
        (\<lambda>x. case x of Inl (Inl _) \<Rightarrow> 0 | Inl (Inr _) \<Rightarrow> 1
           | Inr (Inl _) \<Rightarrow> 2 | Inr (Inr _) \<Rightarrow> 3),
        (\<lambda>x. case x of Inr (Inr (own, k, cs, m)) \<Rightarrow> length cs | _ \<Rightarrow> 0)]") auto

text \<open>
  Modelled from the spec: the pointers of an array descriptor whose storage its
  release frees. An array descriptor has no \<open>metadata\<close>, \<open>format\<close> or \<open>name\<close>;
  of the steps of section 4.1 that free storage, the one that applies is
  \<open>private_data\<close>. The buffers are not among the things section 4.1 frees.
\<close>

definition array_storage :: "ArrowArray \<Rightarrow> addr list" where
  "array_storage a = [ArrowArray.private_data a]"

text \<open>
  Modelled from the spec: "deallocating the node itself", for an array descriptor.
  Deallocating an address that holds no descriptor is a fault.
\<close>

definition free_array :: "addr \<Rightarrow> memory exec" where
  "free_array p m =
     (case arrays m p of
        None \<Rightarrow> None
      | Some s \<Rightarrow> Some (m\<lparr>arrays := (arrays m)(p := None)\<rparr>, [Dealloc p]))"

text \<open>
  Modelled from the spec: the release operation of an array descriptor (section 4.1).
  Invoking release on a node whose \<open>release\<close> field is null is a fault ("must not
  be released"). Otherwise the callback is called on the node and, in this order,
  releases every child in \<open>children\<close> (each child releases its own children first),
  releases \<open>dictionary\<close> if present, frees the \<open>children\<close> container, frees
  \<open>private_data\<close> if owned, and sets its own \<open>release\<close> field to null: this is
  \<open>release_array_body\<close>. Then the node itself is deallocated:
  \<open>release_array\<close> is the body followed by that deallocation.

  A child or dictionary whose \<open>release\<close> field is null carries no ownership
  ("it must not be released and must not be freed"; clearing the callback of a
  still-owned node "leaks the node and its subtree"): \<open>release_array_if_live\<close>
  reads the field and leaves such a node alone.

  The argument \<open>k\<close> bounds the depth of nested release calls; a run that exceeds it
  is \<open>None\<close> like a fault. A memory may hold a cyclic chain of descriptors, on which
  no bound suffices. The four functions terminate: a call of the body lowers the
  bound, and with the bound unchanged the children call the live test, which calls the
  release, which calls the body.
\<close>

function (sequential) release_array_body :: "addr set \<Rightarrow> nat \<Rightarrow> addr \<Rightarrow> memory exec"
  and release_array :: "addr set \<Rightarrow> nat \<Rightarrow> addr \<Rightarrow> memory exec"
  and release_array_if_live :: "addr set \<Rightarrow> nat \<Rightarrow> addr \<Rightarrow> memory exec"
  and release_array_children :: "addr set \<Rightarrow> nat \<Rightarrow> addr list \<Rightarrow> memory exec" where
  "release_array_body own 0 p m = None"
| "release_array_body own (Suc k) p m =
     (case arrays m p of
        None \<Rightarrow> None
      | Some s \<Rightarrow>
          if ArrowArray.release s = NULL then None
          else (case pointer_array_prefix (ArrowArray.n_children s) (ArrowArray.children s) m of
            None \<Rightarrow> None
          | Some cs \<Rightarrow>
             (case release_array_children own k cs m of
                None \<Rightarrow> None
              | Some (m1, e1) \<Rightarrow>
                 (case (if ArrowArray.dictionary s = NULL then Some (m1, [])
                        else release_array_if_live own k (ArrowArray.dictionary s) m1) of
                    None \<Rightarrow> None
                  | Some (m2, e2) \<Rightarrow>
                     (case free_pointer_array (ArrowArray.children s) m2 of
                        None \<Rightarrow> None
                      | Some (m3, e3) \<Rightarrow>
                         (case free_owned_storage own (array_storage s) m3 of
                            None \<Rightarrow> None
                          | Some (m4, e4) \<Rightarrow>
                             (case store_array_release p NULL m4 of
                                None \<Rightarrow> None
                              | Some (m5, e5) \<Rightarrow>
                                  Some (m5, Call (ArrowArray.release s) p #
                                    e1 @ e2 @ e3 @ e4 @ e5))))))))"
| "release_array own k p m =
     (case release_array_body own k p m of
        None \<Rightarrow> None
      | Some (m5, e) \<Rightarrow>
         (case free_array p m5 of
            None \<Rightarrow> None
          | Some (m6, e6) \<Rightarrow> Some (m6, e @ e6)))"
| "release_array_if_live own k c m =
     (case arrays m c of
        None \<Rightarrow> None
      | Some s \<Rightarrow>
          if ArrowArray.release s = NULL then Some (m, []) else release_array own k c m)"
| "release_array_children own k [] m = Some (m, [])"
| "release_array_children own k (c # cs) m =
     (case release_array_if_live own k c m of
        None \<Rightarrow> None
      | Some (m1, e1) \<Rightarrow>
         (case release_array_children own k cs m1 of
            None \<Rightarrow> None
          | Some (m2, e2) \<Rightarrow> Some (m2, e1 @ e2)))"
  by pat_completeness auto
termination
  by (relation "measures [
        (\<lambda>x. case x of Inl (Inl (own, k, p, m)) \<Rightarrow> k | Inl (Inr (own, k, p, m)) \<Rightarrow> k
           | Inr (Inl (own, k, p, m)) \<Rightarrow> k | Inr (Inr (own, k, cs, m)) \<Rightarrow> k),
        (\<lambda>x. case x of Inl (Inl _) \<Rightarrow> 0 | Inl (Inr _) \<Rightarrow> 1
           | Inr (Inl _) \<Rightarrow> 2 | Inr (Inr _) \<Rightarrow> 3),
        (\<lambda>x. case x of Inr (Inr (own, k, cs, m)) \<Rightarrow> length cs | _ \<Rightarrow> 0)]") auto

section \<open>Ownership trees\<close>

text \<open>
  Modelled from the spec: the shape of a descriptor tree (section 3: "a live node owns
  its children array, every child it lists, and its dictionary node, transitively").
  A live node records the address of the descriptor, its release callback, the
  address of its children container, the blocks of storage it owns (in the order it
  frees them), the shapes of its children in order and the shape of its dictionary if
  it has one. A child or dictionary whose \<open>release\<close> is null is \<open>Leaked\<close>: it is
  owned by nobody, and what lies below it is no part of the tree. The test \<open>live\<close>
  tells a live node from a leaked one.
\<close>

datatype shape =
  live: Node (root: addr) (callback: addr) (container: addr) (storage: "addr list")
    (kids: "shape list") (dict: "shape option")
  | Leaked addr

text \<open>
  The live descriptors of a tree, its leaked descriptors, its children containers and
  its blocks of storage; the subtrees at the live nodes (the tree first, then those
  below it, depth first) and the height.
\<close>

fun nodes :: "shape \<Rightarrow> addr list" where
  "nodes (Node a f c bs ts d) =
     a # concat (map nodes ts) @ (case d of None \<Rightarrow> [] | Some t \<Rightarrow> nodes t)"
| "nodes (Leaked a) = []"

fun leaked :: "shape \<Rightarrow> addr list" where
  "leaked (Node a f c bs ts d) =
     concat (map leaked ts) @ (case d of None \<Rightarrow> [] | Some t \<Rightarrow> leaked t)"
| "leaked (Leaked a) = [a]"

fun containers :: "shape \<Rightarrow> addr list" where
  "containers (Node a f c bs ts d) =
     (if c = NULL then [] else [c]) @ concat (map containers ts) @
     (case d of None \<Rightarrow> [] | Some t \<Rightarrow> containers t)"
| "containers (Leaked a) = []"

fun storages :: "shape \<Rightarrow> addr list" where
  "storages (Node a f c bs ts d) =
     bs @ concat (map storages ts) @ (case d of None \<Rightarrow> [] | Some t \<Rightarrow> storages t)"
| "storages (Leaked a) = []"

fun subtrees :: "shape \<Rightarrow> shape list" where
  "subtrees (Node a f c bs ts d) =
     Node a f c bs ts d # concat (map subtrees ts) @
     (case d of None \<Rightarrow> [] | Some t \<Rightarrow> subtrees t)"
| "subtrees (Leaked a) = []"

fun height :: "shape \<Rightarrow> nat" where
  "height (Node a f c bs ts d) =
     Suc (max (foldr max (map height ts) 0) (case d of None \<Rightarrow> 0 | Some t \<Rightarrow> height t))"
| "height (Leaked a) = 0"

text \<open>The storage a producer owns among the given pointers, in their order.\<close>

definition owned_storage :: "addr set \<Rightarrow> addr list \<Rightarrow> addr list" where
  "owned_storage own ps = filter (\<lambda>b. b \<noteq> NULL \<and> b \<in> own) ps"

text \<open>
  Modelled from the spec: the memory holds at \<open>p\<close> a tree of schema descriptors of
  the given shape. A live node is allocated, its \<open>release\<close> is the recorded callback,
  which is not null, the storage it owns among \<open>metadata\<close>, \<open>format\<close>, \<open>name\<close>
  and \<open>private_data\<close> is the recorded storage and is allocated, its children
  sequence is readable and holds trees of the shapes of the children, and its
  \<open>dictionary\<close> is null exactly when the shape has no dictionary, else it holds a
  tree of the dictionary's shape. A leaked node is allocated and its \<open>release\<close> is
  null.
\<close>

fun schema_tree :: "addr set \<Rightarrow> memory \<Rightarrow> addr \<Rightarrow> shape \<Rightarrow> bool" where
  "schema_tree own m p (Node a f c bs ts d) \<longleftrightarrow>
     p = a \<and>
     (case schemas m a of
        None \<Rightarrow> False
      | Some s \<Rightarrow>
          ArrowSchema.release s = f \<and> f \<noteq> NULL \<and> ArrowSchema.children s = c \<and>
          owned_storage own (schema_storage s) = bs \<and>
          list_all (\<lambda>b. blocks m b \<noteq> None) bs \<and>
          (case pointer_array_prefix (ArrowSchema.n_children s) c m of
             None \<Rightarrow> False
           | Some cs \<Rightarrow> list_all2 (schema_tree own m) cs ts) \<and>
          (case d of
             None \<Rightarrow> ArrowSchema.dictionary s = NULL
           | Some t \<Rightarrow> ArrowSchema.dictionary s \<noteq> NULL \<and>
               schema_tree own m (ArrowSchema.dictionary s) t))"
| "schema_tree own m p (Leaked a) \<longleftrightarrow>
     p = a \<and>
     (case schemas m a of None \<Rightarrow> False | Some s \<Rightarrow> ArrowSchema.release s = NULL)"

text \<open>
  Modelled from the spec: the memory holds at \<open>p\<close> a tree of array descriptors of
  the given shape. A live node is allocated, its \<open>release\<close> is the recorded callback,
  which is not null, the storage it owns (its \<open>private_data\<close>, if owned) is the
  recorded storage and is allocated, its children
  sequence is readable and holds trees of the shapes of the children, and its
  \<open>dictionary\<close> is null exactly when the shape has no dictionary, else it holds a
  tree of the dictionary's shape. A leaked node is allocated and its \<open>release\<close> is
  null.
\<close>

fun array_tree :: "addr set \<Rightarrow> memory \<Rightarrow> addr \<Rightarrow> shape \<Rightarrow> bool" where
  "array_tree own m p (Node a f c bs ts d) \<longleftrightarrow>
     p = a \<and>
     (case arrays m a of
        None \<Rightarrow> False
      | Some s \<Rightarrow>
          ArrowArray.release s = f \<and> f \<noteq> NULL \<and> ArrowArray.children s = c \<and>
          owned_storage own (array_storage s) = bs \<and>
          list_all (\<lambda>b. blocks m b \<noteq> None) bs \<and>
          (case pointer_array_prefix (ArrowArray.n_children s) c m of
             None \<Rightarrow> False
           | Some cs \<Rightarrow> list_all2 (array_tree own m) cs ts) \<and>
          (case d of
             None \<Rightarrow> ArrowArray.dictionary s = NULL
           | Some t \<Rightarrow> ArrowArray.dictionary s \<noteq> NULL \<and>
               array_tree own m (ArrowArray.dictionary s) t))"
| "array_tree own m p (Leaked a) \<longleftrightarrow>
     p = a \<and>
     (case arrays m a of None \<Rightarrow> False | Some s \<Rightarrow> ArrowArray.release s = NULL)"

text \<open>
  The effects of the protocol on a tree, read off the shape: a live node is called,
  its children run in order, then its dictionary, then the container and the owned
  storage are freed, \<open>release\<close> is set to null and the node is deallocated. A leaked
  node has no effect.
\<close>

fun trace :: "shape \<Rightarrow> effect list" where
  "trace (Node a f c bs ts d) =
     Call f a # concat (map trace ts) @ (case d of None \<Rightarrow> [] | Some t \<Rightarrow> trace t) @
     (if c = NULL then [] else [Dealloc c]) @ map Dealloc bs @
     [Store_release a NULL, Dealloc a]"
| "trace (Leaked a) = []"

text \<open>The arguments of the calls in a list of effects: the nodes released, in order.\<close>

fun released :: "effect list \<Rightarrow> addr list" where
  "released [] = []"
| "released (Call f a # es) = a # released es"
| "released (e # es) = released es"

text \<open>What an effect does and to which object, without the values involved.\<close>

fun event_key :: "effect \<Rightarrow> nat \<times> addr" where
  "event_key (Call f a) = (0, a)"
| "event_key (Store_release a v) = (1, a)"
| "event_key (Dealloc a) = (2, a)"

text \<open>The memory without the given schema descriptors, pointer arrays and blocks.\<close>

definition purge_schemas :: "addr set \<Rightarrow> addr set \<Rightarrow> addr set \<Rightarrow> memory \<Rightarrow> memory" where
  "purge_schemas N C B m =
     m\<lparr>schemas := schemas m |` (- N), pointer_arrays := pointer_arrays m |` (- C),
       blocks := blocks m |` (- B)\<rparr>"

text \<open>The memory without the given array descriptors, pointer arrays and blocks.\<close>

definition purge_arrays :: "addr set \<Rightarrow> addr set \<Rightarrow> addr set \<Rightarrow> memory \<Rightarrow> memory" where
  "purge_arrays N C B m =
     m\<lparr>arrays := arrays m |` (- N), pointer_arrays := pointer_arrays m |` (- C),
       blocks := blocks m |` (- B)\<rparr>"

section \<open>Concrete memories for the worked examples\<close>

definition schema0 :: ArrowSchema where
  "schema0 = \<lparr>format = 100, name = 101, metadata = NULL, flags = 2, n_children = 0,
     children = NULL, dictionary = NULL, release = 500, private_data = 102\<rparr>"

definition array0 :: ArrowArray where
  "array0 = \<lparr>length_a = 3, null_count = 0, offset = 0, n_buffers = 2, n_children = 0,
     buffers = 200, children = NULL, dictionary = NULL, release = 501, private_data = 201\<rparr>"

definition mem0 :: memory where
  "mem0 = \<lparr>schemas = [10 \<mapsto> schema0], arrays = [20 \<mapsto> array0],
     pointer_arrays = [200 \<mapsto> [202, 203]],
     blocks = [100 \<mapsto> [105, 0], 101 \<mapsto> [120, 0], 102 \<mapsto> [], 201 \<mapsto> [],
               202 \<mapsto> [0], 203 \<mapsto> [1, 0, 0, 0, 2, 0, 0, 0, 3, 0, 0, 0]]\<rparr>"

text \<open>
  A second memory that agrees with \<open>mem0\<close> on the descriptors at 10 and 20 and on
  nothing else: it has a further schema at 11, no pointer array and no block.
\<close>

definition mem1 :: memory where
  "mem1 = \<lparr>schemas = [10 \<mapsto> schema0, 11 \<mapsto> schema0\<lparr>flags := 0\<rparr>],
     arrays = [20 \<mapsto> array0], pointer_arrays = Map.empty, blocks = Map.empty\<rparr>"

text \<open>
  A schema tree of height 3: a struct at 30 whose children container at 300 lists the
  fields at 31, 32 and 34; the field at 32 is dictionary-encoded, with its dictionary
  at 33; the field at 34 has had its callback cleared (it is leaked, and so is its own
  child at 35). The release callbacks are at 600 to 603. The producer owns the blocks
  110 to 114: the format strings of 30, 31, 32 and 33 (each its own block) and the
  private data of 30. The name of 31 points to the block 120, which it does not own.
\<close>

definition schema_leaf :: "addr \<Rightarrow> addr \<Rightarrow> ArrowSchema" where
  "schema_leaf fmt f = \<lparr>format = fmt, name = NULL, metadata = NULL, flags = 2, n_children = 0,
     children = NULL, dictionary = NULL, release = f, private_data = NULL\<rparr>"

definition mem2 :: memory where
  "mem2 = \<lparr>schemas =
       [30 \<mapsto> schema_leaf 110 600\<lparr>ArrowSchema.n_children := 3, ArrowSchema.children := 300,
                 ArrowSchema.private_data := 114\<rparr>,
        31 \<mapsto> schema_leaf 111 601\<lparr>name := 120\<rparr>,
        32 \<mapsto> schema_leaf 112 602\<lparr>ArrowSchema.dictionary := 33\<rparr>,
        33 \<mapsto> schema_leaf 113 603,
        34 \<mapsto> schema_leaf 115 NULL\<lparr>ArrowSchema.n_children := 1, ArrowSchema.children := 301\<rparr>,
        35 \<mapsto> schema_leaf 116 604],
     arrays = [20 \<mapsto> array0],
     pointer_arrays = [300 \<mapsto> [31, 32, 34], 301 \<mapsto> [35]],
     blocks = [110 \<mapsto> [43, 115, 0], 111 \<mapsto> [105, 0], 112 \<mapsto> [105, 0], 113 \<mapsto> [117, 0],
               114 \<mapsto> [1], 115 \<mapsto> [43, 115, 0], 116 \<mapsto> [105, 0], 120 \<mapsto> [120, 0]]\<rparr>"

definition own2 :: "addr set" where
  "own2 = {110, 111, 112, 113, 114}"

definition shape2 :: shape where
  "shape2 = Node 30 600 300 [110, 114]
     [Node 31 601 NULL [111] [] None,
      Node 32 602 NULL [112] [] (Some (Node 33 603 NULL [113] [] None)),
      Leaked 34] None"

text \<open>
  An array tree of height 2: the array at 40 has one child at 41 (container at 400)
  and a dictionary at 42. The release callbacks are at 700 to 702. The producer owns
  the private data of 40, the block 410.
\<close>

definition array_leaf :: "addr \<Rightarrow> ArrowArray" where
  "array_leaf f = \<lparr>length_a = 3, null_count = 0, offset = 0, n_buffers = 0, n_children = 0,
     buffers = NULL, children = NULL, dictionary = NULL, release = f, private_data = NULL\<rparr>"

definition mem3 :: memory where
  "mem3 = \<lparr>schemas = [10 \<mapsto> schema0],
     arrays =
       [40 \<mapsto> array_leaf 700\<lparr>ArrowArray.n_children := 1, ArrowArray.children := 400,
                 ArrowArray.dictionary := 42, ArrowArray.private_data := 410\<rparr>,
        41 \<mapsto> array_leaf 701,
        42 \<mapsto> array_leaf 702],
     pointer_arrays = [400 \<mapsto> [41]],
     blocks = [410 \<mapsto> [7]]\<rparr>"

definition own3 :: "addr set" where
  "own3 = {410}"

definition shape3 :: shape where
  "shape3 = Node 40 700 400 [410] [Node 41 701 NULL [] [] None]
     (Some (Node 42 702 NULL [] [] None))"

section \<open>The adapter: what one call computes\<close>

lemma clear_schema_null:
  "ArrowSwiftClearReleaseSchema NULL m = Some (m, [])"
  by (simp add: ArrowSwiftClearReleaseSchema_def)

lemma clear_array_null:
  "ArrowSwiftClearReleaseArray NULL m = Some (m, [])"
  by (simp add: ArrowSwiftClearReleaseArray_def)

lemma clear_schema_nonnull:
  "p \<noteq> NULL \<Longrightarrow> schemas m p = Some s \<Longrightarrow>
   ArrowSwiftClearReleaseSchema p m =
     Some (m\<lparr>schemas := (schemas m)(p \<mapsto> s\<lparr>ArrowSchema.release := NULL\<rparr>)\<rparr>,
       [Store_release p NULL])"
  by (simp add: ArrowSwiftClearReleaseSchema_def store_schema_release_def)

lemma clear_array_nonnull:
  "p \<noteq> NULL \<Longrightarrow> arrays m p = Some a \<Longrightarrow>
   ArrowSwiftClearReleaseArray p m =
     Some (m\<lparr>arrays := (arrays m)(p \<mapsto> a\<lparr>ArrowArray.release := NULL\<rparr>)\<rparr>,
       [Store_release p NULL])"
  by (simp add: ArrowSwiftClearReleaseArray_def store_array_release_def)

lemma clear_schema_dangling:
  "p \<noteq> NULL \<Longrightarrow> schemas m p = None \<Longrightarrow> ArrowSwiftClearReleaseSchema p m = None"
  by (simp add: ArrowSwiftClearReleaseSchema_def store_schema_release_def)

lemma clear_array_dangling:
  "p \<noteq> NULL \<Longrightarrow> arrays m p = None \<Longrightarrow> ArrowSwiftClearReleaseArray p m = None"
  by (simp add: ArrowSwiftClearReleaseArray_def store_array_release_def)

section \<open>The adapter: inversion, return, repetition, locality\<close>

lemma clear_schema_SomeE:
  assumes "ArrowSwiftClearReleaseSchema p m = Some (m', es)"
  obtains (null) "p = NULL" "m' = m" "es = []"
  | (object) s where "p \<noteq> NULL" "schemas m p = Some s"
      "m' = m\<lparr>schemas := (schemas m)(p \<mapsto> s\<lparr>ArrowSchema.release := NULL\<rparr>)\<rparr>"
      "es = [Store_release p NULL]"
proof (cases "p = NULL")
  case True
  with assms have "m' = m" "es = []" by (simp_all add: clear_schema_null)
  with True show ?thesis by (rule null)
next
  case False
  show ?thesis
  proof (cases "schemas m p")
    case None
    with False assms show ?thesis by (simp add: clear_schema_dangling)
  next
    case (Some s)
    with False assms
    have "m' = m\<lparr>schemas := (schemas m)(p \<mapsto> s\<lparr>ArrowSchema.release := NULL\<rparr>)\<rparr>"
      "es = [Store_release p NULL]"
      by (simp_all add: clear_schema_nonnull)
    with False Some show ?thesis by (rule object)
  qed
qed

lemma clear_array_SomeE:
  assumes "ArrowSwiftClearReleaseArray p m = Some (m', es)"
  obtains (null) "p = NULL" "m' = m" "es = []"
  | (object) a where "p \<noteq> NULL" "arrays m p = Some a"
      "m' = m\<lparr>arrays := (arrays m)(p \<mapsto> a\<lparr>ArrowArray.release := NULL\<rparr>)\<rparr>"
      "es = [Store_release p NULL]"
proof (cases "p = NULL")
  case True
  with assms have "m' = m" "es = []" by (simp_all add: clear_array_null)
  with True show ?thesis by (rule null)
next
  case False
  show ?thesis
  proof (cases "arrays m p")
    case None
    with False assms show ?thesis by (simp add: clear_array_dangling)
  next
    case (Some a)
    with False assms
    have "m' = m\<lparr>arrays := (arrays m)(p \<mapsto> a\<lparr>ArrowArray.release := NULL\<rparr>)\<rparr>"
      "es = [Store_release p NULL]"
      by (simp_all add: clear_array_nonnull)
    with False Some show ?thesis by (rule object)
  qed
qed

lemma clear_schema_returns:
  assumes "p = NULL \<or> schemas m p \<noteq> None"
  shows "\<exists>m' es. ArrowSwiftClearReleaseSchema p m = Some (m', es) \<and> length es \<le> 1"
proof (cases "p = NULL")
  case True
  then show ?thesis by (simp add: clear_schema_null)
next
  case False
  with assms obtain s where "schemas m p = Some s" by auto
  with False show ?thesis by (simp add: clear_schema_nonnull)
qed

lemma clear_array_returns:
  assumes "p = NULL \<or> arrays m p \<noteq> None"
  shows "\<exists>m' es. ArrowSwiftClearReleaseArray p m = Some (m', es) \<and> length es \<le> 1"
proof (cases "p = NULL")
  case True
  then show ?thesis by (simp add: clear_array_null)
next
  case False
  with assms obtain a where "arrays m p = Some a" by auto
  with False show ?thesis by (simp add: clear_array_nonnull)
qed

lemma clear_schema_no_ownership_action:
  assumes "ArrowSwiftClearReleaseSchema p m = Some (m', es)"
  shows "Call f x \<notin> set es \<and> Dealloc q \<notin> set es \<and>
     dom (schemas m') = dom (schemas m) \<and>
     (\<forall>q. q \<noteq> p \<longrightarrow> schemas m' q = schemas m q) \<and>
     arrays m' = arrays m \<and> pointer_arrays m' = pointer_arrays m \<and> blocks m' = blocks m \<and>
     (p \<noteq> NULL \<longrightarrow> map_option ArrowSchema.release (schemas m' p) = Some NULL)"
  using assms
proof (cases rule: clear_schema_SomeE)
  case null
  then show ?thesis by simp
next
  case (object s)
  have "insert p (dom (schemas m)) = dom (schemas m)"
    using object(2) by (simp add: insert_absorb domI)
  with object show ?thesis by simp
qed

lemma clear_array_no_ownership_action:
  assumes "ArrowSwiftClearReleaseArray p m = Some (m', es)"
  shows "Call f x \<notin> set es \<and> Dealloc q \<notin> set es \<and>
     dom (arrays m') = dom (arrays m) \<and>
     (\<forall>q. q \<noteq> p \<longrightarrow> arrays m' q = arrays m q) \<and>
     schemas m' = schemas m \<and> pointer_arrays m' = pointer_arrays m \<and> blocks m' = blocks m \<and>
     (p \<noteq> NULL \<longrightarrow> map_option ArrowArray.release (arrays m' p) = Some NULL)"
  using assms
proof (cases rule: clear_array_SomeE)
  case null
  then show ?thesis by simp
next
  case (object a)
  have "insert p (dom (arrays m)) = dom (arrays m)"
    using object(2) by (simp add: insert_absorb domI)
  with object show ?thesis by simp
qed

lemma clear_schema_twice:
  assumes "ArrowSwiftClearReleaseSchema p m = Some (m', es)"
  shows "ArrowSwiftClearReleaseSchema p m' = Some (m', es)"
  using assms
proof (cases rule: clear_schema_SomeE)
  case null
  then show ?thesis by (simp add: clear_schema_null)
next
  case (object s)
  let ?s' = "s\<lparr>ArrowSchema.release := NULL\<rparr>"
  have "schemas m' p = Some ?s'" by (simp add: object(3))
  from clear_schema_nonnull [OF object(1) this]
  show ?thesis by (simp add: object(3,4))
qed

lemma clear_schema_bind:
  "Option.bind (ArrowSwiftClearReleaseSchema p m)
      (\<lambda>(m', es). map_option fst (ArrowSwiftClearReleaseSchema p m')) =
    map_option fst (ArrowSwiftClearReleaseSchema p m)"
proof (cases "ArrowSwiftClearReleaseSchema p m")
  case None
  then show ?thesis by simp
next
  case (Some r)
  obtain m' es where r: "r = (m', es)" by (cases r)
  from Some clear_schema_twice [of p m m' es] show ?thesis by (simp add: r)
qed

lemma clear_array_twice:
  assumes "ArrowSwiftClearReleaseArray p m = Some (m', es)"
  shows "ArrowSwiftClearReleaseArray p m' = Some (m', es)"
  using assms
proof (cases rule: clear_array_SomeE)
  case null
  then show ?thesis by (simp add: clear_array_null)
next
  case (object a)
  let ?s' = "a\<lparr>ArrowArray.release := NULL\<rparr>"
  have "arrays m' p = Some ?s'" by (simp add: object(3))
  from clear_array_nonnull [OF object(1) this]
  show ?thesis by (simp add: object(3,4))
qed

lemma clear_array_bind:
  "Option.bind (ArrowSwiftClearReleaseArray p m)
      (\<lambda>(m', es). map_option fst (ArrowSwiftClearReleaseArray p m')) =
    map_option fst (ArrowSwiftClearReleaseArray p m)"
proof (cases "ArrowSwiftClearReleaseArray p m")
  case None
  then show ?thesis by simp
next
  case (Some r)
  obtain m' es where r: "r = (m', es)" by (cases r)
  from Some clear_array_twice [of p m m' es] show ?thesis by (simp add: r)
qed

lemma clear_schema_local:
  assumes "schemas m1 p = schemas m2 p"
  shows "map_option (\<lambda>(m', es). (schemas m' p, es)) (ArrowSwiftClearReleaseSchema p m1) =
         map_option (\<lambda>(m', es). (schemas m' p, es)) (ArrowSwiftClearReleaseSchema p m2)"
proof (cases "p = NULL")
  case True
  with assms show ?thesis by (simp add: clear_schema_null)
next
  case False
  show ?thesis
  proof (cases "schemas m1 p")
    case None
    with assms have "schemas m2 p = None" by simp
    with None False show ?thesis by (simp add: clear_schema_dangling)
  next
    case (Some s)
    with assms have "schemas m2 p = Some s" by simp
    with Some False show ?thesis by (simp add: clear_schema_nonnull)
  qed
qed

lemma clear_array_local:
  assumes "arrays m1 p = arrays m2 p"
  shows "map_option (\<lambda>(m', es). (arrays m' p, es)) (ArrowSwiftClearReleaseArray p m1) =
         map_option (\<lambda>(m', es). (arrays m' p, es)) (ArrowSwiftClearReleaseArray p m2)"
proof (cases "p = NULL")
  case True
  with assms show ?thesis by (simp add: clear_array_null)
next
  case False
  show ?thesis
  proof (cases "arrays m1 p")
    case None
    with assms have "arrays m2 p = None" by simp
    with None False show ?thesis by (simp add: clear_array_dangling)
  next
    case (Some a)
    with assms have "arrays m2 p = Some a" by simp
    with Some False show ?thesis by (simp add: clear_array_nonnull)
  qed
qed

section \<open>The adapter: frame\<close>

lemma clear_schema_frame:
  assumes "p \<noteq> NULL" "schemas m p = Some s"
  shows "\<exists>m' s'. ArrowSwiftClearReleaseSchema p m = Some (m', [Store_release p NULL]) \<and>
         schemas m' p = Some s' \<and>
         ArrowSchema.release s' = NULL \<and>
         format s' = format s \<and> name s' = name s \<and> metadata s' = metadata s \<and>
         flags s' = flags s \<and> ArrowSchema.n_children s' = ArrowSchema.n_children s \<and>
         ArrowSchema.children s' = ArrowSchema.children s \<and>
         ArrowSchema.dictionary s' = ArrowSchema.dictionary s \<and>
         ArrowSchema.private_data s' = ArrowSchema.private_data s \<and>
         (\<forall>q. q \<noteq> p \<longrightarrow> schemas m' q = schemas m q) \<and>
         arrays m' = arrays m \<and> pointer_arrays m' = pointer_arrays m \<and>
         blocks m' = blocks m \<and> dom (schemas m') = dom (schemas m)"
proof -
  let ?s' = "s\<lparr>ArrowSchema.release := NULL\<rparr>"
  let ?m' = "m\<lparr>schemas := (schemas m)(p \<mapsto> ?s')\<rparr>"
  have run: "ArrowSwiftClearReleaseSchema p m = Some (?m', [Store_release p NULL])"
    using assms by (rule clear_schema_nonnull)
  have d: "insert p (dom (schemas m)) = dom (schemas m)"
    using assms(2) by (simp add: insert_absorb domI)
  show ?thesis
    by (rule exI [of _ ?m'], rule exI [of _ ?s']) (simp add: run d)
qed

lemma clear_array_frame:
  assumes "p \<noteq> NULL" "arrays m p = Some a"
  shows "\<exists>m' a'. ArrowSwiftClearReleaseArray p m = Some (m', [Store_release p NULL]) \<and>
         arrays m' p = Some a' \<and>
         ArrowArray.release a' = NULL \<and>
         length_a a' = length_a a \<and> null_count a' = null_count a \<and>
         offset a' = offset a \<and> n_buffers a' = n_buffers a \<and>
         ArrowArray.n_children a' = ArrowArray.n_children a \<and>
         buffers a' = buffers a \<and>
         ArrowArray.children a' = ArrowArray.children a \<and>
         ArrowArray.dictionary a' = ArrowArray.dictionary a \<and>
         ArrowArray.private_data a' = ArrowArray.private_data a \<and>
         (\<forall>q. q \<noteq> p \<longrightarrow> arrays m' q = arrays m q) \<and>
         schemas m' = schemas m \<and> pointer_arrays m' = pointer_arrays m \<and>
         blocks m' = blocks m \<and> dom (arrays m') = dom (arrays m)"
proof -
  let ?a' = "a\<lparr>ArrowArray.release := NULL\<rparr>"
  let ?m' = "m\<lparr>arrays := (arrays m)(p \<mapsto> ?a')\<rparr>"
  have run: "ArrowSwiftClearReleaseArray p m = Some (?m', [Store_release p NULL])"
    using assms by (rule clear_array_nonnull)
  have d: "insert p (dom (arrays m)) = dom (arrays m)"
    using assms(2) by (simp add: insert_absorb domI)
  show ?thesis
    by (rule exI [of _ ?m'], rule exI [of _ ?a']) (simp add: run d)
qed

lemma mem0_schema: "(10::addr) \<noteq> NULL \<and> schemas mem0 10 = Some schema0"
  by (simp add: NULL_def mem0_def)

lemma mem0_array: "(20::addr) \<noteq> NULL \<and> arrays mem0 20 = Some array0"
  by (simp add: NULL_def mem0_def)

text \<open>
  C1. For a non-null reference to a schema descriptor (to an array descriptor), the
  clear operation returns normally; afterwards the \<open>release\<close> field of that descriptor
  is the null pointer and each of its other fields holds the value it held before.
  Every other descriptor (hence every child and the dictionary), every pointer array
  and every block is as before, the set of allocated objects is the same, and the
  only effect is the one store to the descriptor: no call, no deallocation.
\<close>

theorem clear_release_frame:
  "(p \<noteq> NULL \<and> schemas m p = Some s \<longrightarrow>
      (\<exists>m' s'. ArrowSwiftClearReleaseSchema p m = Some (m', [Store_release p NULL]) \<and>
         schemas m' p = Some s' \<and>
         ArrowSchema.release s' = NULL \<and>
         format s' = format s \<and> name s' = name s \<and> metadata s' = metadata s \<and>
         flags s' = flags s \<and> ArrowSchema.n_children s' = ArrowSchema.n_children s \<and>
         ArrowSchema.children s' = ArrowSchema.children s \<and>
         ArrowSchema.dictionary s' = ArrowSchema.dictionary s \<and>
         ArrowSchema.private_data s' = ArrowSchema.private_data s \<and>
         (\<forall>q. q \<noteq> p \<longrightarrow> schemas m' q = schemas m q) \<and>
         arrays m' = arrays m \<and> pointer_arrays m' = pointer_arrays m \<and>
         blocks m' = blocks m \<and> dom (schemas m') = dom (schemas m))) \<and>
   (r \<noteq> NULL \<and> arrays m r = Some a \<longrightarrow>
      (\<exists>m' a'. ArrowSwiftClearReleaseArray r m = Some (m', [Store_release r NULL]) \<and>
         arrays m' r = Some a' \<and>
         ArrowArray.release a' = NULL \<and>
         length_a a' = length_a a \<and> null_count a' = null_count a \<and>
         offset a' = offset a \<and> n_buffers a' = n_buffers a \<and>
         ArrowArray.n_children a' = ArrowArray.n_children a \<and>
         buffers a' = buffers a \<and>
         ArrowArray.children a' = ArrowArray.children a \<and>
         ArrowArray.dictionary a' = ArrowArray.dictionary a \<and>
         ArrowArray.private_data a' = ArrowArray.private_data a \<and>
         (\<forall>q. q \<noteq> r \<longrightarrow> arrays m' q = arrays m q) \<and>
         schemas m' = schemas m \<and> pointer_arrays m' = pointer_arrays m \<and>
         blocks m' = blocks m \<and> dom (arrays m') = dom (arrays m)))"
proof (intro conjI impI)
  assume "p \<noteq> NULL \<and> schemas m p = Some s"
  then have "p \<noteq> NULL" "schemas m p = Some s" by (rule conjunct1, rule conjunct2)
  then show "\<exists>m' s'. ArrowSwiftClearReleaseSchema p m = Some (m', [Store_release p NULL]) \<and>
         schemas m' p = Some s' \<and>
         ArrowSchema.release s' = NULL \<and>
         format s' = format s \<and> name s' = name s \<and> metadata s' = metadata s \<and>
         flags s' = flags s \<and> ArrowSchema.n_children s' = ArrowSchema.n_children s \<and>
         ArrowSchema.children s' = ArrowSchema.children s \<and>
         ArrowSchema.dictionary s' = ArrowSchema.dictionary s \<and>
         ArrowSchema.private_data s' = ArrowSchema.private_data s \<and>
         (\<forall>q. q \<noteq> p \<longrightarrow> schemas m' q = schemas m q) \<and>
         arrays m' = arrays m \<and> pointer_arrays m' = pointer_arrays m \<and>
         blocks m' = blocks m \<and> dom (schemas m') = dom (schemas m)"
    by (rule clear_schema_frame)
next
  assume "r \<noteq> NULL \<and> arrays m r = Some a"
  then have "r \<noteq> NULL" "arrays m r = Some a" by (rule conjunct1, rule conjunct2)
  then show "\<exists>m' a'. ArrowSwiftClearReleaseArray r m = Some (m', [Store_release r NULL]) \<and>
         arrays m' r = Some a' \<and>
         ArrowArray.release a' = NULL \<and>
         length_a a' = length_a a \<and> null_count a' = null_count a \<and>
         offset a' = offset a \<and> n_buffers a' = n_buffers a \<and>
         ArrowArray.n_children a' = ArrowArray.n_children a \<and>
         buffers a' = buffers a \<and>
         ArrowArray.children a' = ArrowArray.children a \<and>
         ArrowArray.dictionary a' = ArrowArray.dictionary a \<and>
         ArrowArray.private_data a' = ArrowArray.private_data a \<and>
         (\<forall>q. q \<noteq> r \<longrightarrow> arrays m' q = arrays m q) \<and>
         schemas m' = schemas m \<and> pointer_arrays m' = pointer_arrays m \<and>
         blocks m' = blocks m \<and> dom (arrays m') = dom (arrays m)"
    by (rule clear_array_frame)
qed

text \<open>
  The theorem at the schema at address 10 and the array at address 20 of \<open>mem0\<close>,
  both live (their \<open>release\<close> fields are 500 and 501).
\<close>

theorem clear_release_frame_witness:
  "((10::addr) \<noteq> NULL \<and> schemas mem0 10 = Some schema0) \<and>
   (\<exists>m' s'. ArrowSwiftClearReleaseSchema 10 mem0 = Some (m', [Store_release 10 NULL]) \<and>
         schemas m' 10 = Some s' \<and>
         ArrowSchema.release s' = NULL \<and>
         format s' = format schema0 \<and> name s' = name schema0 \<and>
         metadata s' = metadata schema0 \<and>
         flags s' = flags schema0 \<and>
         ArrowSchema.n_children s' = ArrowSchema.n_children schema0 \<and>
         ArrowSchema.children s' = ArrowSchema.children schema0 \<and>
         ArrowSchema.dictionary s' = ArrowSchema.dictionary schema0 \<and>
         ArrowSchema.private_data s' = ArrowSchema.private_data schema0 \<and>
         (\<forall>q. q \<noteq> 10 \<longrightarrow> schemas m' q = schemas mem0 q) \<and>
         arrays m' = arrays mem0 \<and> pointer_arrays m' = pointer_arrays mem0 \<and>
         blocks m' = blocks mem0 \<and> dom (schemas m') = dom (schemas mem0)) \<and>
   ((20::addr) \<noteq> NULL \<and> arrays mem0 20 = Some array0) \<and>
   (\<exists>m' a'. ArrowSwiftClearReleaseArray 20 mem0 = Some (m', [Store_release 20 NULL]) \<and>
         arrays m' 20 = Some a' \<and>
         ArrowArray.release a' = NULL \<and>
         length_a a' = length_a array0 \<and> null_count a' = null_count array0 \<and>
         offset a' = offset array0 \<and> n_buffers a' = n_buffers array0 \<and>
         ArrowArray.n_children a' = ArrowArray.n_children array0 \<and>
         buffers a' = buffers array0 \<and>
         ArrowArray.children a' = ArrowArray.children array0 \<and>
         ArrowArray.dictionary a' = ArrowArray.dictionary array0 \<and>
         ArrowArray.private_data a' = ArrowArray.private_data array0 \<and>
         (\<forall>q. q \<noteq> 20 \<longrightarrow> arrays m' q = arrays mem0 q) \<and>
         schemas m' = schemas mem0 \<and> pointer_arrays m' = pointer_arrays mem0 \<and>
         blocks m' = blocks mem0 \<and> dom (arrays m') = dom (arrays mem0))"
proof -
  note t = clear_release_frame [of 10 mem0 schema0 20 array0]
  note s = t [THEN conjunct1, THEN mp, OF mem0_schema]
  note a = t [THEN conjunct2, THEN mp, OF mem0_array]
  show ?thesis
    by (rule conjI [OF mem0_schema conjI [OF s conjI [OF mem0_array a]]])
qed


section \<open>The adapter: null references, return, ownership, repetition, locality\<close>

text \<open>
  C2. Called with the null reference, each clear operation returns normally with the
  memory it was given and an empty list of effects: no store, no call and no
  deallocation. This holds in every memory, also in one where no object is allocated
  at all, where any dereference, a load included, would fault.
\<close>

theorem clear_release_null_reference:
  "ArrowSwiftClearReleaseSchema NULL m = Some (m, []) \<and>
   ArrowSwiftClearReleaseArray NULL m = Some (m, []) \<and>
   ArrowSwiftClearReleaseSchema NULL
     \<lparr>schemas = Map.empty, arrays = Map.empty, pointer_arrays = Map.empty,
      blocks = Map.empty\<rparr> \<noteq> None \<and>
   ArrowSwiftClearReleaseArray NULL
     \<lparr>schemas = Map.empty, arrays = Map.empty, pointer_arrays = Map.empty,
      blocks = Map.empty\<rparr> \<noteq> None"
  by (simp add: clear_schema_null clear_array_null)

text \<open>
  C6. Each clear operation is a total function with no loop and no call; on a
  reference that is null or the address of a descriptor of its type it returns
  normally (a result, not a fault), after at most one effect. A non-null pointer to no
  descriptor is not a reference: dereferencing it is undefined behaviour in C, and the
  model faults there (lemmas \<open>clear_schema_dangling\<close>, \<open>clear_array_dangling\<close>).
\<close>

theorem clear_release_returns:
  "(p = NULL \<or> schemas m p \<noteq> None \<longrightarrow>
      (\<exists>m' es. ArrowSwiftClearReleaseSchema p m = Some (m', es) \<and> length es \<le> 1)) \<and>
   (r = NULL \<or> arrays m r \<noteq> None \<longrightarrow>
      (\<exists>m' es. ArrowSwiftClearReleaseArray r m = Some (m', es) \<and> length es \<le> 1))"
  using clear_schema_returns [of p m] clear_array_returns [of r m] by (intro conjI impI)

text \<open>
  The theorem at the live schema at 10 of \<open>mem0\<close>, at the live array at 20, and at
  the null reference for both operations.
\<close>

theorem clear_release_returns_witness:
  "schemas mem0 10 \<noteq> None \<and> arrays mem0 20 \<noteq> None \<and>
   (\<exists>m' es. ArrowSwiftClearReleaseSchema 10 mem0 = Some (m', es) \<and> length es \<le> 1) \<and>
   (\<exists>m' es. ArrowSwiftClearReleaseArray 20 mem0 = Some (m', es) \<and> length es \<le> 1) \<and>
   (\<exists>m' es. ArrowSwiftClearReleaseSchema NULL mem0 = Some (m', es) \<and> length es \<le> 1) \<and>
   (\<exists>m' es. ArrowSwiftClearReleaseArray NULL mem0 = Some (m', es) \<and> length es \<le> 1)"
proof -
  have s: "schemas mem0 10 \<noteq> None" and a: "arrays mem0 20 \<noteq> None"
    by (simp_all add: mem0_def)
  note live = clear_release_returns [of 10 mem0 20]
  note null = clear_release_returns [of NULL mem0 NULL]
  from s have 1: "\<exists>m' es. ArrowSwiftClearReleaseSchema 10 mem0 = Some (m', es) \<and> length es \<le> 1"
    using live [THEN conjunct1] by (simp only: simp_thms)
  from a have 2: "\<exists>m' es. ArrowSwiftClearReleaseArray 20 mem0 = Some (m', es) \<and> length es \<le> 1"
    using live [THEN conjunct2] by (simp only: simp_thms)
  have 3: "\<exists>m' es. ArrowSwiftClearReleaseSchema NULL mem0 = Some (m', es) \<and> length es \<le> 1"
    using null [THEN conjunct1] by (simp only: simp_thms)
  have 4: "\<exists>m' es. ArrowSwiftClearReleaseArray NULL mem0 = Some (m', es) \<and> length es \<le> 1"
    using null [THEN conjunct2] by (simp only: simp_thms)
  show ?thesis
    by (rule conjI [OF s conjI [OF a conjI [OF 1 conjI [OF 2 conjI [OF 3 4]]]]])
qed

text \<open>
  C7. Whatever the reference (null or not) and whatever the \<open>release\<close> field held
  before, a clear operation that has returned made no call through any function
  pointer (so it did not invoke the release callback) and deallocated nothing: the
  same descriptors are allocated as before, every descriptor other than the one
  referenced is as before (so are the children and the dictionary), and the pointer
  arrays and the blocks (children containers, private data) are as before. For a
  non-null reference the descriptor is left with \<open>release\<close> null, the non-owning
  state.
\<close>

theorem clear_release_no_ownership_action:
  "(ArrowSwiftClearReleaseSchema p m = Some (m', es) \<longrightarrow>
      Call f x \<notin> set es \<and> Dealloc q \<notin> set es \<and>
      dom (schemas m') = dom (schemas m) \<and>
      (\<forall>q. q \<noteq> p \<longrightarrow> schemas m' q = schemas m q) \<and>
      arrays m' = arrays m \<and> pointer_arrays m' = pointer_arrays m \<and>
      blocks m' = blocks m \<and>
      (p \<noteq> NULL \<longrightarrow> map_option ArrowSchema.release (schemas m' p) = Some NULL)) \<and>
   (ArrowSwiftClearReleaseArray r n = Some (n', fs) \<longrightarrow>
      Call f x \<notin> set fs \<and> Dealloc q \<notin> set fs \<and>
      dom (arrays n') = dom (arrays n) \<and>
      (\<forall>q. q \<noteq> r \<longrightarrow> arrays n' q = arrays n q) \<and>
      schemas n' = schemas n \<and> pointer_arrays n' = pointer_arrays n \<and>
      blocks n' = blocks n \<and>
      (r \<noteq> NULL \<longrightarrow> map_option ArrowArray.release (arrays n' r) = Some NULL))"
proof (rule conjI; rule impI)
  assume "ArrowSwiftClearReleaseSchema p m = Some (m', es)"
  then show "Call f x \<notin> set es \<and> Dealloc q \<notin> set es \<and>
      dom (schemas m') = dom (schemas m) \<and>
      (\<forall>q. q \<noteq> p \<longrightarrow> schemas m' q = schemas m q) \<and>
      arrays m' = arrays m \<and> pointer_arrays m' = pointer_arrays m \<and>
      blocks m' = blocks m \<and>
      (p \<noteq> NULL \<longrightarrow> map_option ArrowSchema.release (schemas m' p) = Some NULL)"
    by (rule clear_schema_no_ownership_action)
next
  assume "ArrowSwiftClearReleaseArray r n = Some (n', fs)"
  then show "Call f x \<notin> set fs \<and> Dealloc q \<notin> set fs \<and>
      dom (arrays n') = dom (arrays n) \<and>
      (\<forall>q. q \<noteq> r \<longrightarrow> arrays n' q = arrays n q) \<and>
      schemas n' = schemas n \<and> pointer_arrays n' = pointer_arrays n \<and>
      blocks n' = blocks n \<and>
      (r \<noteq> NULL \<longrightarrow> map_option ArrowArray.release (arrays n' r) = Some NULL)"
    by (rule clear_array_no_ownership_action)
qed

text \<open>
  The theorem at the live descriptors of \<open>mem0\<close> (release callbacks 500 and 501):
  the callbacks are not called, nothing is deallocated, and \<open>release\<close> reads null.
\<close>

theorem clear_release_no_ownership_action_witness:
  "(\<exists>m' es. ArrowSwiftClearReleaseSchema 10 mem0 = Some (m', es) \<and>
      map_option ArrowSchema.release (schemas mem0 10) = Some 500 \<and>
      Call 500 10 \<notin> set es \<and> Dealloc 10 \<notin> set es \<and>
      dom (schemas m') = {10} \<and> blocks m' = blocks mem0 \<and>
      map_option ArrowSchema.release (schemas m' 10) = Some NULL) \<and>
   (\<exists>n' fs. ArrowSwiftClearReleaseArray 20 mem0 = Some (n', fs) \<and>
      map_option ArrowArray.release (arrays mem0 20) = Some 501 \<and>
      Call 501 20 \<notin> set fs \<and> Dealloc 20 \<notin> set fs \<and>
      dom (arrays n') = {20} \<and> blocks n' = blocks mem0 \<and>
      map_option ArrowArray.release (arrays n' 20) = Some NULL)"
proof -
  obtain m' es where s: "ArrowSwiftClearReleaseSchema 10 mem0 = Some (m', es)"
    using clear_schema_nonnull [of 10 mem0 schema0] mem0_schema by simp
  obtain n' fs where a: "ArrowSwiftClearReleaseArray 20 mem0 = Some (n', fs)"
    using clear_array_nonnull [of 20 mem0 array0] mem0_array by simp
  note t = clear_release_no_ownership_action [of 10 mem0 m' es 500 10 10 20 mem0 n' fs]
  note u = clear_release_no_ownership_action [of 10 mem0 m' es 501 20 20 20 mem0 n' fs]
  have 1: "map_option ArrowSchema.release (schemas mem0 10) = Some 500 \<and>
      Call 500 10 \<notin> set es \<and> Dealloc 10 \<notin> set es \<and>
      dom (schemas m') = {10} \<and> blocks m' = blocks mem0 \<and>
      map_option ArrowSchema.release (schemas m' 10) = Some NULL"
    using t [THEN conjunct1, THEN mp, OF s] by (simp add: mem0_def schema0_def NULL_def)
  have 2: "map_option ArrowArray.release (arrays mem0 20) = Some 501 \<and>
      Call 501 20 \<notin> set fs \<and> Dealloc 20 \<notin> set fs \<and>
      dom (arrays n') = {20} \<and> blocks n' = blocks mem0 \<and>
      map_option ArrowArray.release (arrays n' 20) = Some NULL"
    using u [THEN conjunct2, THEN mp, OF a] by (simp add: mem0_def array0_def NULL_def)
  from s 1 a 2 show ?thesis by blast
qed

text \<open>
  C8. Each clear operation is idempotent. Run on the memory that a first call
  returned, a second call with the same reference returns that very memory (and
  performs the same effects as the first). Faults included: two calls in sequence
  reach the memory that one call reaches, or fault exactly when one call faults.
\<close>

theorem clear_release_idempotent:
  "(ArrowSwiftClearReleaseSchema p m = Some (m', es) \<longrightarrow>
      ArrowSwiftClearReleaseSchema p m' = Some (m', es)) \<and>
   (ArrowSwiftClearReleaseArray r n = Some (n', fs) \<longrightarrow>
      ArrowSwiftClearReleaseArray r n' = Some (n', fs)) \<and>
   Option.bind (ArrowSwiftClearReleaseSchema p m)
      (\<lambda>(m', es). map_option fst (ArrowSwiftClearReleaseSchema p m')) =
    map_option fst (ArrowSwiftClearReleaseSchema p m) \<and>
   Option.bind (ArrowSwiftClearReleaseArray r n)
      (\<lambda>(n', fs). map_option fst (ArrowSwiftClearReleaseArray r n')) =
    map_option fst (ArrowSwiftClearReleaseArray r n)"
  using clear_schema_twice [of p m m' es] clear_array_twice [of r n n' fs]
    clear_schema_bind [of p m] clear_array_bind [of r n]
  by (intro conjI impI)

text \<open>
  The theorem at the live descriptors of \<open>mem0\<close>: the first call changes the memory
  (it clears a non-null \<open>release\<close>), the second leaves it as the first left it.
\<close>

theorem clear_release_idempotent_witness:
  "(\<exists>m' es. ArrowSwiftClearReleaseSchema 10 mem0 = Some (m', es) \<and> m' \<noteq> mem0 \<and>
      ArrowSwiftClearReleaseSchema 10 m' = Some (m', es)) \<and>
   (\<exists>n' fs. ArrowSwiftClearReleaseArray 20 mem0 = Some (n', fs) \<and> n' \<noteq> mem0 \<and>
      ArrowSwiftClearReleaseArray 20 n' = Some (n', fs))"
proof -
  let ?m' = "mem0\<lparr>schemas := (schemas mem0)(10 \<mapsto> schema0\<lparr>ArrowSchema.release := NULL\<rparr>)\<rparr>"
  let ?n' = "mem0\<lparr>arrays := (arrays mem0)(20 \<mapsto> array0\<lparr>ArrowArray.release := NULL\<rparr>)\<rparr>"
  have s: "ArrowSwiftClearReleaseSchema 10 mem0 = Some (?m', [Store_release 10 NULL])"
    using clear_schema_nonnull [of 10 mem0 schema0] mem0_schema by simp
  have a: "ArrowSwiftClearReleaseArray 20 mem0 = Some (?n', [Store_release 20 NULL])"
    using clear_array_nonnull [of 20 mem0 array0] mem0_array by simp
  have "schemas ?m' 10 \<noteq> schemas mem0 10"
    by (simp add: mem0_def schema0_def NULL_def)
  then have ds: "?m' \<noteq> mem0" by metis
  have "arrays ?n' 20 \<noteq> arrays mem0 20"
    by (simp add: mem0_def array0_def NULL_def)
  then have da: "?n' \<noteq> mem0" by metis
  note t = clear_release_idempotent
    [of 10 mem0 ?m' "[Store_release 10 NULL]" 20 mem0 ?n' "[Store_release 20 NULL]"]
  note s2 = t [THEN conjunct1, THEN mp, OF s]
  note a2 = t [THEN conjunct2, THEN conjunct1, THEN mp, OF a]
  show ?thesis
    by (intro exI conjI, rule s, rule ds, rule s2, rule a, rule da, rule a2)
qed

text \<open>
  C10. Each clear operation is a function of its reference and of the one descriptor
  referenced. Two runs from memories that hold the same descriptor at the reference
  (and may differ everywhere else) both fault or both return, and then leave the same
  descriptor at the reference and perform the same effects.
\<close>

theorem clear_release_deterministic:
  "(schemas m1 p = schemas m2 p \<longrightarrow>
      map_option (\<lambda>(m', es). (schemas m' p, es)) (ArrowSwiftClearReleaseSchema p m1) =
      map_option (\<lambda>(m', es). (schemas m' p, es)) (ArrowSwiftClearReleaseSchema p m2)) \<and>
   (arrays n1 r = arrays n2 r \<longrightarrow>
      map_option (\<lambda>(n', es). (arrays n' r, es)) (ArrowSwiftClearReleaseArray r n1) =
      map_option (\<lambda>(n', es). (arrays n' r, es)) (ArrowSwiftClearReleaseArray r n2))"
  using clear_schema_local [of m1 p m2] clear_array_local [of n1 r n2]
  by (intro conjI impI)

text \<open>
  The theorem at the memories \<open>mem0\<close> and \<open>mem1\<close>, which differ but hold the same
  descriptors at 10 and at 20.
\<close>

theorem clear_release_deterministic_witness:
  "mem0 \<noteq> mem1 \<and> schemas mem0 10 = schemas mem1 10 \<and> arrays mem0 20 = arrays mem1 20 \<and>
   map_option (\<lambda>(m', es). (schemas m' 10, es)) (ArrowSwiftClearReleaseSchema 10 mem0) =
   map_option (\<lambda>(m', es). (schemas m' 10, es)) (ArrowSwiftClearReleaseSchema 10 mem1) \<and>
   map_option (\<lambda>(n', es). (arrays n' 20, es)) (ArrowSwiftClearReleaseArray 20 mem0) =
   map_option (\<lambda>(n', es). (arrays n' 20, es)) (ArrowSwiftClearReleaseArray 20 mem1) \<and>
   ArrowSwiftClearReleaseSchema 10 mem0 \<noteq> None"
proof -
  have "pointer_arrays mem0 200 \<noteq> pointer_arrays mem1 200"
    by (simp add: mem0_def mem1_def)
  then have d: "mem0 \<noteq> mem1" by metis
  have s: "schemas mem0 10 = schemas mem1 10" and a: "arrays mem0 20 = arrays mem1 20"
    by (simp_all add: mem0_def mem1_def)
  note t = clear_release_deterministic [of mem0 10 mem1 mem0 20 mem1]
  note ts = t [THEN conjunct1, THEN mp, OF s]
  note ta = t [THEN conjunct2, THEN mp, OF a]
  have r: "ArrowSwiftClearReleaseSchema 10 mem0 \<noteq> None"
    using clear_schema_nonnull [of 10 mem0 schema0] mem0_schema by simp
  show ?thesis
    by (rule conjI [OF d conjI [OF s conjI [OF a conjI [OF ts conjI [OF ta r]]]]])
qed

section \<open>The flag constants\<close>

lemma flag_values:
  "ARROW_FLAG_DICTIONARY_ORDERED = 2 ^ 0" "ARROW_FLAG_NULLABLE = 2 ^ 1"
  "ARROW_FLAG_MAP_KEYS_SORTED = 2 ^ 2"
  by (simp_all add: ARROW_FLAG_DICTIONARY_ORDERED_def ARROW_FLAG_NULLABLE_def
      ARROW_FLAG_MAP_KEYS_SORTED_def)

lemma bit_flag_iff:
  "bit ARROW_FLAG_DICTIONARY_ORDERED n \<longleftrightarrow> n = 0"
  "bit ARROW_FLAG_NULLABLE n \<longleftrightarrow> n = 1"
  "bit ARROW_FLAG_MAP_KEYS_SORTED n \<longleftrightarrow> n = 2"
  unfolding flag_values by (simp_all only: bit_exp_iff) auto

lemma test_flag_iff:
  fixes w :: int64_t
  shows "w AND ARROW_FLAG_DICTIONARY_ORDERED \<noteq> 0 \<longleftrightarrow> bit w 0"
    "w AND ARROW_FLAG_NULLABLE \<noteq> 0 \<longleftrightarrow> bit w 1"
    "w AND ARROW_FLAG_MAP_KEYS_SORTED \<noteq> 0 \<longleftrightarrow> bit w 2"
  unfolding flag_values by (simp_all only: and_exp_eq_0_iff_not_bit) simp_all

text \<open>
  C4. The three flag constants have the values 1, 2 and 4, that is bit 0, bit 1 and
  bit 2 alone: \<open>ARROW_FLAG_DICTIONARY_ORDERED\<close> has bit \<open>n\<close> set exactly for
  \<open>n = 0\<close>, \<open>ARROW_FLAG_NULLABLE\<close> exactly for \<open>n = 1\<close>,
  \<open>ARROW_FLAG_MAP_KEYS_SORTED\<close> exactly for \<open>n = 2\<close>; and testing the \<open>flags\<close>
  field of a schema against a constant reads that bit of the field.
\<close>

theorem arrow_flag_bit_positions:
  "ARROW_FLAG_DICTIONARY_ORDERED = 1 \<and> ARROW_FLAG_NULLABLE = 2 \<and>
   ARROW_FLAG_MAP_KEYS_SORTED = 4 \<and>
   ARROW_FLAG_DICTIONARY_ORDERED = push_bit 0 1 \<and> ARROW_FLAG_NULLABLE = push_bit 1 1 \<and>
   ARROW_FLAG_MAP_KEYS_SORTED = push_bit 2 1 \<and>
   (bit ARROW_FLAG_DICTIONARY_ORDERED n \<longleftrightarrow> n = 0) \<and>
   (bit ARROW_FLAG_NULLABLE n \<longleftrightarrow> n = 1) \<and>
   (bit ARROW_FLAG_MAP_KEYS_SORTED n \<longleftrightarrow> n = 2) \<and>
   (flags s AND ARROW_FLAG_DICTIONARY_ORDERED \<noteq> 0 \<longleftrightarrow> bit (flags s) 0) \<and>
   (flags s AND ARROW_FLAG_NULLABLE \<noteq> 0 \<longleftrightarrow> bit (flags s) 1) \<and>
   (flags s AND ARROW_FLAG_MAP_KEYS_SORTED \<noteq> 0 \<longleftrightarrow> bit (flags s) 2)"
  by (simp only: bit_flag_iff test_flag_iff)
     (simp add: ARROW_FLAG_DICTIONARY_ORDERED_def ARROW_FLAG_NULLABLE_def
      ARROW_FLAG_MAP_KEYS_SORTED_def)

lemma flags_distinct:
  "distinct [ARROW_FLAG_DICTIONARY_ORDERED, ARROW_FLAG_NULLABLE, ARROW_FLAG_MAP_KEYS_SORTED]"
  by (simp add: ARROW_FLAG_DICTIONARY_ORDERED_def ARROW_FLAG_NULLABLE_def
      ARROW_FLAG_MAP_KEYS_SORTED_def)

lemma flags_disjoint:
  "ARROW_FLAG_DICTIONARY_ORDERED AND ARROW_FLAG_NULLABLE = 0"
  "ARROW_FLAG_DICTIONARY_ORDERED AND ARROW_FLAG_MAP_KEYS_SORTED = 0"
  "ARROW_FLAG_NULLABLE AND ARROW_FLAG_MAP_KEYS_SORTED = 0"
  by (simp_all add: ARROW_FLAG_DICTIONARY_ORDERED_def ARROW_FLAG_NULLABLE_def
      ARROW_FLAG_MAP_KEYS_SORTED_def)

lemma flags_recover:
  fixes w :: int64_t
  shows
   "((w AND NOT (ARROW_FLAG_DICTIONARY_ORDERED OR ARROW_FLAG_NULLABLE OR
        ARROW_FLAG_MAP_KEYS_SORTED) OR
      (if d then ARROW_FLAG_DICTIONARY_ORDERED else 0) OR
      (if n then ARROW_FLAG_NULLABLE else 0) OR
      (if k then ARROW_FLAG_MAP_KEYS_SORTED else 0)) AND ARROW_FLAG_DICTIONARY_ORDERED \<noteq> 0)
     = d"
   "((w AND NOT (ARROW_FLAG_DICTIONARY_ORDERED OR ARROW_FLAG_NULLABLE OR
        ARROW_FLAG_MAP_KEYS_SORTED) OR
      (if d then ARROW_FLAG_DICTIONARY_ORDERED else 0) OR
      (if n then ARROW_FLAG_NULLABLE else 0) OR
      (if k then ARROW_FLAG_MAP_KEYS_SORTED else 0)) AND ARROW_FLAG_NULLABLE \<noteq> 0)
     = n"
   "((w AND NOT (ARROW_FLAG_DICTIONARY_ORDERED OR ARROW_FLAG_NULLABLE OR
        ARROW_FLAG_MAP_KEYS_SORTED) OR
      (if d then ARROW_FLAG_DICTIONARY_ORDERED else 0) OR
      (if n then ARROW_FLAG_NULLABLE else 0) OR
      (if k then ARROW_FLAG_MAP_KEYS_SORTED else 0)) AND ARROW_FLAG_MAP_KEYS_SORTED \<noteq> 0)
     = k"
  unfolding test_flag_iff
  by (simp_all add: bit_or_iff bit_and_iff bit_not_iff bit_flag_iff)

lemma flags_recover_plain:
   "(((if d then ARROW_FLAG_DICTIONARY_ORDERED else 0) OR
      (if n then ARROW_FLAG_NULLABLE else 0) OR
      (if k then ARROW_FLAG_MAP_KEYS_SORTED else 0)) AND ARROW_FLAG_DICTIONARY_ORDERED \<noteq> 0)
     = d"
   "(((if d then ARROW_FLAG_DICTIONARY_ORDERED else 0) OR
      (if n then ARROW_FLAG_NULLABLE else 0) OR
      (if k then ARROW_FLAG_MAP_KEYS_SORTED else 0)) AND ARROW_FLAG_NULLABLE \<noteq> 0)
     = n"
   "(((if d then ARROW_FLAG_DICTIONARY_ORDERED else 0) OR
      (if n then ARROW_FLAG_NULLABLE else 0) OR
      (if k then ARROW_FLAG_MAP_KEYS_SORTED else 0)) AND ARROW_FLAG_MAP_KEYS_SORTED \<noteq> 0)
     = k"
  unfolding test_flag_iff
  by (simp_all add: bit_or_iff bit_flag_iff)

lemma flags_set_other:
  fixes w :: int64_t
  shows
   "((w OR ARROW_FLAG_NULLABLE) AND ARROW_FLAG_DICTIONARY_ORDERED \<noteq> 0) =
     (w AND ARROW_FLAG_DICTIONARY_ORDERED \<noteq> 0)"
   "((w OR ARROW_FLAG_MAP_KEYS_SORTED) AND ARROW_FLAG_DICTIONARY_ORDERED \<noteq> 0) =
     (w AND ARROW_FLAG_DICTIONARY_ORDERED \<noteq> 0)"
   "((w OR ARROW_FLAG_DICTIONARY_ORDERED) AND ARROW_FLAG_NULLABLE \<noteq> 0) =
     (w AND ARROW_FLAG_NULLABLE \<noteq> 0)"
   "((w OR ARROW_FLAG_MAP_KEYS_SORTED) AND ARROW_FLAG_NULLABLE \<noteq> 0) =
     (w AND ARROW_FLAG_NULLABLE \<noteq> 0)"
   "((w OR ARROW_FLAG_DICTIONARY_ORDERED) AND ARROW_FLAG_MAP_KEYS_SORTED \<noteq> 0) =
     (w AND ARROW_FLAG_MAP_KEYS_SORTED \<noteq> 0)"
   "((w OR ARROW_FLAG_NULLABLE) AND ARROW_FLAG_MAP_KEYS_SORTED \<noteq> 0) =
     (w AND ARROW_FLAG_MAP_KEYS_SORTED \<noteq> 0)"
  unfolding test_flag_iff
  by (simp_all add: bit_or_iff bit_flag_iff)

text \<open>
  C9. The three flag constants are pairwise different powers of two whose pairwise
  bitwise AND is 0. A flags word built as the bitwise OR of any subset of them (here
  on top of any word \<open>w\<close>, whose own three flag bits are masked out first) gives
  each flag back by a bitwise AND with its constant, independently of the other two;
  and setting one flag by OR leaves the tests of the other two as they were.
\<close>

theorem arrow_flags_independent:
  "ARROW_FLAG_DICTIONARY_ORDERED = 2 ^ 0 \<and> ARROW_FLAG_NULLABLE = 2 ^ 1 \<and>
   ARROW_FLAG_MAP_KEYS_SORTED = 2 ^ 2 \<and>
   distinct [ARROW_FLAG_DICTIONARY_ORDERED, ARROW_FLAG_NULLABLE, ARROW_FLAG_MAP_KEYS_SORTED] \<and>
   ARROW_FLAG_DICTIONARY_ORDERED AND ARROW_FLAG_NULLABLE = 0 \<and>
   ARROW_FLAG_DICTIONARY_ORDERED AND ARROW_FLAG_MAP_KEYS_SORTED = 0 \<and>
   ARROW_FLAG_NULLABLE AND ARROW_FLAG_MAP_KEYS_SORTED = 0 \<and>
   ((w AND NOT (ARROW_FLAG_DICTIONARY_ORDERED OR ARROW_FLAG_NULLABLE OR
        ARROW_FLAG_MAP_KEYS_SORTED) OR
      (if d then ARROW_FLAG_DICTIONARY_ORDERED else 0) OR
      (if n then ARROW_FLAG_NULLABLE else 0) OR
      (if k then ARROW_FLAG_MAP_KEYS_SORTED else 0)) AND ARROW_FLAG_DICTIONARY_ORDERED \<noteq> 0)
     = d \<and>
   ((w AND NOT (ARROW_FLAG_DICTIONARY_ORDERED OR ARROW_FLAG_NULLABLE OR
        ARROW_FLAG_MAP_KEYS_SORTED) OR
      (if d then ARROW_FLAG_DICTIONARY_ORDERED else 0) OR
      (if n then ARROW_FLAG_NULLABLE else 0) OR
      (if k then ARROW_FLAG_MAP_KEYS_SORTED else 0)) AND ARROW_FLAG_NULLABLE \<noteq> 0)
     = n \<and>
   ((w AND NOT (ARROW_FLAG_DICTIONARY_ORDERED OR ARROW_FLAG_NULLABLE OR
        ARROW_FLAG_MAP_KEYS_SORTED) OR
      (if d then ARROW_FLAG_DICTIONARY_ORDERED else 0) OR
      (if n then ARROW_FLAG_NULLABLE else 0) OR
      (if k then ARROW_FLAG_MAP_KEYS_SORTED else 0)) AND ARROW_FLAG_MAP_KEYS_SORTED \<noteq> 0)
     = k \<and>
   (((if d then ARROW_FLAG_DICTIONARY_ORDERED else 0) OR
      (if n then ARROW_FLAG_NULLABLE else 0) OR
      (if k then ARROW_FLAG_MAP_KEYS_SORTED else 0)) AND ARROW_FLAG_DICTIONARY_ORDERED \<noteq> 0)
     = d \<and>
   (((if d then ARROW_FLAG_DICTIONARY_ORDERED else 0) OR
      (if n then ARROW_FLAG_NULLABLE else 0) OR
      (if k then ARROW_FLAG_MAP_KEYS_SORTED else 0)) AND ARROW_FLAG_NULLABLE \<noteq> 0)
     = n \<and>
   (((if d then ARROW_FLAG_DICTIONARY_ORDERED else 0) OR
      (if n then ARROW_FLAG_NULLABLE else 0) OR
      (if k then ARROW_FLAG_MAP_KEYS_SORTED else 0)) AND ARROW_FLAG_MAP_KEYS_SORTED \<noteq> 0)
     = k \<and>
   ((w OR ARROW_FLAG_NULLABLE) AND ARROW_FLAG_DICTIONARY_ORDERED \<noteq> 0) =
     (w AND ARROW_FLAG_DICTIONARY_ORDERED \<noteq> 0) \<and>
   ((w OR ARROW_FLAG_MAP_KEYS_SORTED) AND ARROW_FLAG_DICTIONARY_ORDERED \<noteq> 0) =
     (w AND ARROW_FLAG_DICTIONARY_ORDERED \<noteq> 0) \<and>
   ((w OR ARROW_FLAG_DICTIONARY_ORDERED) AND ARROW_FLAG_NULLABLE \<noteq> 0) =
     (w AND ARROW_FLAG_NULLABLE \<noteq> 0) \<and>
   ((w OR ARROW_FLAG_MAP_KEYS_SORTED) AND ARROW_FLAG_NULLABLE \<noteq> 0) =
     (w AND ARROW_FLAG_NULLABLE \<noteq> 0) \<and>
   ((w OR ARROW_FLAG_DICTIONARY_ORDERED) AND ARROW_FLAG_MAP_KEYS_SORTED \<noteq> 0) =
     (w AND ARROW_FLAG_MAP_KEYS_SORTED \<noteq> 0) \<and>
   ((w OR ARROW_FLAG_NULLABLE) AND ARROW_FLAG_MAP_KEYS_SORTED \<noteq> 0) =
     (w AND ARROW_FLAG_MAP_KEYS_SORTED \<noteq> 0)"
  by (intro conjI;
      rule flag_values flags_distinct flags_disjoint flags_recover flags_recover_plain
        flags_set_other)

section \<open>The release protocol on an ownership tree\<close>

subsection \<open>Shapes\<close>

lemma nodes_kid:
  "t \<in> set ts \<Longrightarrow> x \<in> set (nodes t) \<Longrightarrow> x \<in> set (nodes (Node a f c bs ts d))"
  by auto

lemma nodes_dict: "x \<in> set (nodes t) \<Longrightarrow> x \<in> set (nodes (Node a f c bs ts (Some t)))"
  by simp

lemma nodes_root: "a \<in> set (nodes (Node a f c bs ts d))"
  by simp

lemma leaked_kid:
  "t \<in> set ts \<Longrightarrow> x \<in> set (leaked t) \<Longrightarrow> x \<in> set (leaked (Node a f c bs ts d))"
  by auto

lemma leaked_dict: "x \<in> set (leaked t) \<Longrightarrow> x \<in> set (leaked (Node a f c bs ts (Some t)))"
  by simp

lemma containers_kid:
  "t \<in> set ts \<Longrightarrow> x \<in> set (containers t) \<Longrightarrow> x \<in> set (containers (Node a f c bs ts d))"
  by auto

lemma containers_dict:
  "x \<in> set (containers t) \<Longrightarrow> x \<in> set (containers (Node a f c bs ts (Some t)))"
  by simp

lemma containers_root: "c \<noteq> NULL \<Longrightarrow> c \<in> set (containers (Node a f c bs ts d))"
  by simp

lemma storages_kid:
  "t \<in> set ts \<Longrightarrow> x \<in> set (storages t) \<Longrightarrow> x \<in> set (storages (Node a f c bs ts d))"
  by auto

lemma storages_dict:
  "x \<in> set (storages t) \<Longrightarrow> x \<in> set (storages (Node a f c bs ts (Some t)))"
  by simp

lemma storages_root: "b \<in> set bs \<Longrightarrow> b \<in> set (storages (Node a f c bs ts d))"
  by simp

lemma height_kid: "t \<in> set ts \<Longrightarrow> height t \<le> foldr max (map height ts) 0"
  by (induction ts) (auto simp: max_def)

lemma height_NodeE:
  assumes "height (Node a f c bs ts d) \<le> k"
  obtains k' where "k = Suc k'" "\<forall>t \<in> set ts. height t \<le> k'"
    "\<forall>t \<in> set_option d. height t \<le> k'"
proof -
  from assms obtain k' where k: "k = Suc k'" by (cases k) simp_all
  with assms have m: "foldr max (map height ts) 0 \<le> k'"
    and d: "(case d of None \<Rightarrow> 0 | Some t \<Rightarrow> height t) \<le> k'"
    by simp_all
  from m have "\<forall>t \<in> set ts. height t \<le> k'"
    using height_kid le_trans by blast
  moreover from d have "\<forall>t \<in> set_option d. height t \<le> k'"
    by (cases d) simp_all
  ultimately show ?thesis using k that by blast
qed

lemma nodes_subtrees: "nodes t = map root (subtrees t)"
proof (induction t)
  case (Node a f c bs ts d)
  have kids: "map nodes ts = map (\<lambda>t. map root (subtrees t)) ts"
    by (rule map_cong [OF refl]) (rule Node.IH(1))
  have dict: "(case d of None \<Rightarrow> [] | Some t \<Rightarrow> nodes t) =
      map root (case d of None \<Rightarrow> [] | Some t \<Rightarrow> subtrees t)"
    using Node.IH(2) by (cases d) simp_all
  show ?case
    by (simp add: kids dict map_concat comp_def)
next
  case (Leaked a)
  show ?case by simp
qed

lemma subtrees_live: "u \<in> set (subtrees t) \<Longrightarrow> live u"
proof (induction t)
  case (Node a f c bs ts d)
  then show ?case by (cases d) auto
next
  case (Leaked a)
  then show ?case by simp
qed

subsection \<open>Trees in memory and their frame\<close>

lemma pointer_array_prefix_cong:
  assumes "c \<noteq> NULL \<Longrightarrow> pointer_arrays m' c = pointer_arrays m c"
  shows "pointer_array_prefix n c m' = pointer_array_prefix n c m"
  using assms by (simp add: pointer_array_prefix_def)

lemma pointer_array_prefix_allocated:
  assumes "pointer_array_prefix n c m = Some cs" "c \<noteq> NULL"
  shows "\<exists>ps. pointer_arrays m c = Some ps"
  using assms by (simp add: pointer_array_prefix_def split: option.splits)

lemma purge_schemas_empty: "purge_schemas {} {} {} m = m"
  by (simp add: purge_schemas_def restrict_map_def)

lemma purge_schemas_twice:
  "purge_schemas N2 C2 B2 (purge_schemas N1 C1 B1 m) =
     purge_schemas (N1 \<union> N2) (C1 \<union> C2) (B1 \<union> B2) m"
  by (simp add: purge_schemas_def)

lemma purge_schemas_sel:
  "schemas (purge_schemas N C B m) a = (if a \<in> N then None else schemas m a)"
  "pointer_arrays (purge_schemas N C B m) c = (if c \<in> C then None else pointer_arrays m c)"
  "blocks (purge_schemas N C B m) b = (if b \<in> B then None else blocks m b)"
  "arrays (purge_schemas N C B m) = arrays m"
  by (simp_all add: purge_schemas_def restrict_map_def)

lemma purge_arrays_empty: "purge_arrays {} {} {} m = m"
  by (simp add: purge_arrays_def restrict_map_def)

lemma purge_arrays_twice:
  "purge_arrays N2 C2 B2 (purge_arrays N1 C1 B1 m) =
     purge_arrays (N1 \<union> N2) (C1 \<union> C2) (B1 \<union> B2) m"
  by (simp add: purge_arrays_def)

lemma purge_arrays_sel:
  "arrays (purge_arrays N C B m) a = (if a \<in> N then None else arrays m a)"
  "pointer_arrays (purge_arrays N C B m) c = (if c \<in> C then None else pointer_arrays m c)"
  "blocks (purge_arrays N C B m) b = (if b \<in> B then None else blocks m b)"
  "schemas (purge_arrays N C B m) = schemas m"
  by (simp_all add: purge_arrays_def restrict_map_def)

lemma schema_tree_NodeE:
  assumes "schema_tree own m p (Node a f c bs ts d)"
  obtains s cs where "p = a" "schemas m a = Some s"
    "ArrowSchema.release s = f" "f \<noteq> NULL" "ArrowSchema.children s = c"
    "owned_storage own (schema_storage s) = bs" "list_all (\<lambda>b. blocks m b \<noteq> None) bs"
    "pointer_array_prefix (ArrowSchema.n_children s) c m = Some cs"
    "list_all2 (schema_tree own m) cs ts"
    "case d of None \<Rightarrow> ArrowSchema.dictionary s = NULL
     | Some t \<Rightarrow> ArrowSchema.dictionary s \<noteq> NULL \<and>
         schema_tree own m (ArrowSchema.dictionary s) t"
proof -
  from assms have p: "p = a" by simp
  from assms obtain s where s: "schemas m a = Some s"
    by (cases "schemas m a") simp_all
  from assms s have f: "ArrowSchema.release s = f" "f \<noteq> NULL"
    and c: "ArrowSchema.children s = c"
    and bs: "owned_storage own (schema_storage s) = bs" "list_all (\<lambda>b. blocks m b \<noteq> None) bs"
    and rest: "case pointer_array_prefix (ArrowSchema.n_children s) c m of
             None \<Rightarrow> False
           | Some cs \<Rightarrow> list_all2 (schema_tree own m) cs ts"
    and dict: "case d of None \<Rightarrow> ArrowSchema.dictionary s = NULL
     | Some t \<Rightarrow> ArrowSchema.dictionary s \<noteq> NULL \<and>
         schema_tree own m (ArrowSchema.dictionary s) t"
    by simp_all
  from rest obtain cs where
    cs: "pointer_array_prefix (ArrowSchema.n_children s) c m = Some cs"
    by (cases "pointer_array_prefix (ArrowSchema.n_children s) c m") simp_all
  with rest have kids: "list_all2 (schema_tree own m) cs ts" by simp
  from p s f c bs cs kids dict show ?thesis by (rule that)
qed

lemma schema_tree_NodeI:
  assumes "p = a" "schemas m a = Some s"
    "ArrowSchema.release s = f" "f \<noteq> NULL" "ArrowSchema.children s = c"
    "owned_storage own (schema_storage s) = bs" "list_all (\<lambda>b. blocks m b \<noteq> None) bs"
    "pointer_array_prefix (ArrowSchema.n_children s) c m = Some cs"
    "list_all2 (schema_tree own m) cs ts"
    "case d of None \<Rightarrow> ArrowSchema.dictionary s = NULL
     | Some t \<Rightarrow> ArrowSchema.dictionary s \<noteq> NULL \<and>
         schema_tree own m (ArrowSchema.dictionary s) t"
  shows "schema_tree own m p (Node a f c bs ts d)"
  using assms by simp

lemma schema_tree_LeakedE:
  assumes "schema_tree own m p (Leaked a)"
  obtains s where "p = a" "schemas m a = Some s" "ArrowSchema.release s = NULL"
proof -
  from assms have p: "p = a" by simp
  from assms obtain s where s: "schemas m a = Some s"
    by (cases "schemas m a") simp_all
  with assms have "ArrowSchema.release s = NULL" by simp
  with p s show ?thesis by (rule that)
qed

lemma schema_tree_frame:
  assumes "schema_tree own m p t"
    and "\<forall>a \<in> set (nodes t) \<union> set (leaked t). schemas m' a = schemas m a"
    and "\<forall>c \<in> set (containers t). pointer_arrays m' c = pointer_arrays m c"
    and "\<forall>b \<in> set (storages t). blocks m' b = blocks m b"
  shows "schema_tree own m' p t"
  using assms
proof (induction t arbitrary: p)
  case (Leaked a)
  from Leaked.prems(1) obtain s where "p = a" "schemas m a = Some s"
    "ArrowSchema.release s = NULL"
    by (rule schema_tree_LeakedE)
  moreover from Leaked.prems(2) have "schemas m' a = schemas m a" by simp
  ultimately show ?case by simp
next
  case (Node a f c bs ts d)
  from Node.prems(1) obtain s cs where
    p: "p = a" and s: "schemas m a = Some s"
    and f: "ArrowSchema.release s = f" "f \<noteq> NULL" and c: "ArrowSchema.children s = c"
    and bs: "owned_storage own (schema_storage s) = bs" "list_all (\<lambda>b. blocks m b \<noteq> None) bs"
    and cs: "pointer_array_prefix (ArrowSchema.n_children s) c m = Some cs"
    and kids: "list_all2 (schema_tree own m) cs ts"
    and dict: "case d of None \<Rightarrow> ArrowSchema.dictionary s = NULL
               | Some t \<Rightarrow> ArrowSchema.dictionary s \<noteq> NULL \<and>
                   schema_tree own m (ArrowSchema.dictionary s) t"
    by (rule schema_tree_NodeE)
  have s': "schemas m' a = Some s"
    using Node.prems(2) s by simp
  have "\<forall>b \<in> set bs. blocks m' b = blocks m b"
    using Node.prems(4) by simp
  with bs(2) have bs': "list_all (\<lambda>b. blocks m' b \<noteq> None) bs"
    by (simp add: list_all_iff)
  have "c \<noteq> NULL \<Longrightarrow> pointer_arrays m' c = pointer_arrays m c"
    using Node.prems(3) containers_root [of c a f bs ts d] by metis
  then have "pointer_array_prefix (ArrowSchema.n_children s) c m' =
      pointer_array_prefix (ArrowSchema.n_children s) c m"
    by (rule pointer_array_prefix_cong)
  with cs have cs': "pointer_array_prefix (ArrowSchema.n_children s) c m' = Some cs"
    by simp
  have kids': "list_all2 (schema_tree own m') cs ts"
  proof (rule list.rel_mono_strong [OF kids])
    fix q t assume t: "t \<in> set ts" and q: "schema_tree own m q t"
    show "schema_tree own m' q t"
    proof (rule Node.IH(1) [OF t q])
      show "\<forall>a \<in> set (nodes t) \<union> set (leaked t). schemas m' a = schemas m a"
        using Node.prems(2) nodes_kid [OF t] leaked_kid [OF t] by blast
      show "\<forall>c \<in> set (containers t). pointer_arrays m' c = pointer_arrays m c"
        using Node.prems(3) containers_kid [OF t] by blast
      show "\<forall>b \<in> set (storages t). blocks m' b = blocks m b"
        using Node.prems(4) storages_kid [OF t] by blast
    qed
  qed
  have dict': "case d of None \<Rightarrow> ArrowSchema.dictionary s = NULL
               | Some t \<Rightarrow> ArrowSchema.dictionary s \<noteq> NULL \<and>
                   schema_tree own m' (ArrowSchema.dictionary s) t"
  proof (cases d)
    case None
    with dict show ?thesis by simp
  next
    case (Some t)
    with dict have q: "ArrowSchema.dictionary s \<noteq> NULL"
      "schema_tree own m (ArrowSchema.dictionary s) t" by simp_all
    have "schema_tree own m' (ArrowSchema.dictionary s) t"
    proof (rule Node.IH(2) [OF _ q(2)])
      show "t \<in> set_option d" using Some by simp
      show "\<forall>a \<in> set (nodes t) \<union> set (leaked t). schemas m' a = schemas m a"
        using Node.prems(2) nodes_dict [of _ t a f c bs ts] leaked_dict [of _ t a f c bs ts]
        unfolding Some by blast
      show "\<forall>c \<in> set (containers t). pointer_arrays m' c = pointer_arrays m c"
        using Node.prems(3) containers_dict [of _ t a f c bs ts] unfolding Some by blast
      show "\<forall>b \<in> set (storages t). blocks m' b = blocks m b"
        using Node.prems(4) storages_dict [of _ t a f c bs ts] unfolding Some by blast
    qed
    with q Some show ?thesis by simp
  qed
  from p s' f c bs(1) bs' cs' kids' dict' show ?case by (rule schema_tree_NodeI)
qed

lemma array_tree_NodeE:
  assumes "array_tree own m p (Node a f c bs ts d)"
  obtains s cs where "p = a" "arrays m a = Some s"
    "ArrowArray.release s = f" "f \<noteq> NULL" "ArrowArray.children s = c"
    "owned_storage own (array_storage s) = bs" "list_all (\<lambda>b. blocks m b \<noteq> None) bs"
    "pointer_array_prefix (ArrowArray.n_children s) c m = Some cs"
    "list_all2 (array_tree own m) cs ts"
    "case d of None \<Rightarrow> ArrowArray.dictionary s = NULL
     | Some t \<Rightarrow> ArrowArray.dictionary s \<noteq> NULL \<and>
         array_tree own m (ArrowArray.dictionary s) t"
proof -
  from assms have p: "p = a" by simp
  from assms obtain s where s: "arrays m a = Some s"
    by (cases "arrays m a") simp_all
  from assms s have f: "ArrowArray.release s = f" "f \<noteq> NULL"
    and c: "ArrowArray.children s = c"
    and bs: "owned_storage own (array_storage s) = bs" "list_all (\<lambda>b. blocks m b \<noteq> None) bs"
    and rest: "case pointer_array_prefix (ArrowArray.n_children s) c m of
             None \<Rightarrow> False
           | Some cs \<Rightarrow> list_all2 (array_tree own m) cs ts"
    and dict: "case d of None \<Rightarrow> ArrowArray.dictionary s = NULL
     | Some t \<Rightarrow> ArrowArray.dictionary s \<noteq> NULL \<and>
         array_tree own m (ArrowArray.dictionary s) t"
    by simp_all
  from rest obtain cs where
    cs: "pointer_array_prefix (ArrowArray.n_children s) c m = Some cs"
    by (cases "pointer_array_prefix (ArrowArray.n_children s) c m") simp_all
  with rest have kids: "list_all2 (array_tree own m) cs ts" by simp
  from p s f c bs cs kids dict show ?thesis by (rule that)
qed

lemma array_tree_NodeI:
  assumes "p = a" "arrays m a = Some s"
    "ArrowArray.release s = f" "f \<noteq> NULL" "ArrowArray.children s = c"
    "owned_storage own (array_storage s) = bs" "list_all (\<lambda>b. blocks m b \<noteq> None) bs"
    "pointer_array_prefix (ArrowArray.n_children s) c m = Some cs"
    "list_all2 (array_tree own m) cs ts"
    "case d of None \<Rightarrow> ArrowArray.dictionary s = NULL
     | Some t \<Rightarrow> ArrowArray.dictionary s \<noteq> NULL \<and>
         array_tree own m (ArrowArray.dictionary s) t"
  shows "array_tree own m p (Node a f c bs ts d)"
  using assms by simp

lemma array_tree_LeakedE:
  assumes "array_tree own m p (Leaked a)"
  obtains s where "p = a" "arrays m a = Some s" "ArrowArray.release s = NULL"
proof -
  from assms have p: "p = a" by simp
  from assms obtain s where s: "arrays m a = Some s"
    by (cases "arrays m a") simp_all
  with assms have "ArrowArray.release s = NULL" by simp
  with p s show ?thesis by (rule that)
qed

lemma array_tree_frame:
  assumes "array_tree own m p t"
    and "\<forall>a \<in> set (nodes t) \<union> set (leaked t). arrays m' a = arrays m a"
    and "\<forall>c \<in> set (containers t). pointer_arrays m' c = pointer_arrays m c"
    and "\<forall>b \<in> set (storages t). blocks m' b = blocks m b"
  shows "array_tree own m' p t"
  using assms
proof (induction t arbitrary: p)
  case (Leaked a)
  from Leaked.prems(1) obtain s where "p = a" "arrays m a = Some s"
    "ArrowArray.release s = NULL"
    by (rule array_tree_LeakedE)
  moreover from Leaked.prems(2) have "arrays m' a = arrays m a" by simp
  ultimately show ?case by simp
next
  case (Node a f c bs ts d)
  from Node.prems(1) obtain s cs where
    p: "p = a" and s: "arrays m a = Some s"
    and f: "ArrowArray.release s = f" "f \<noteq> NULL" and c: "ArrowArray.children s = c"
    and bs: "owned_storage own (array_storage s) = bs" "list_all (\<lambda>b. blocks m b \<noteq> None) bs"
    and cs: "pointer_array_prefix (ArrowArray.n_children s) c m = Some cs"
    and kids: "list_all2 (array_tree own m) cs ts"
    and dict: "case d of None \<Rightarrow> ArrowArray.dictionary s = NULL
               | Some t \<Rightarrow> ArrowArray.dictionary s \<noteq> NULL \<and>
                   array_tree own m (ArrowArray.dictionary s) t"
    by (rule array_tree_NodeE)
  have s': "arrays m' a = Some s"
    using Node.prems(2) s by simp
  have "\<forall>b \<in> set bs. blocks m' b = blocks m b"
    using Node.prems(4) by simp
  with bs(2) have bs': "list_all (\<lambda>b. blocks m' b \<noteq> None) bs"
    by (simp add: list_all_iff)
  have "c \<noteq> NULL \<Longrightarrow> pointer_arrays m' c = pointer_arrays m c"
    using Node.prems(3) containers_root [of c a f bs ts d] by metis
  then have "pointer_array_prefix (ArrowArray.n_children s) c m' =
      pointer_array_prefix (ArrowArray.n_children s) c m"
    by (rule pointer_array_prefix_cong)
  with cs have cs': "pointer_array_prefix (ArrowArray.n_children s) c m' = Some cs"
    by simp
  have kids': "list_all2 (array_tree own m') cs ts"
  proof (rule list.rel_mono_strong [OF kids])
    fix q t assume t: "t \<in> set ts" and q: "array_tree own m q t"
    show "array_tree own m' q t"
    proof (rule Node.IH(1) [OF t q])
      show "\<forall>a \<in> set (nodes t) \<union> set (leaked t). arrays m' a = arrays m a"
        using Node.prems(2) nodes_kid [OF t] leaked_kid [OF t] by blast
      show "\<forall>c \<in> set (containers t). pointer_arrays m' c = pointer_arrays m c"
        using Node.prems(3) containers_kid [OF t] by blast
      show "\<forall>b \<in> set (storages t). blocks m' b = blocks m b"
        using Node.prems(4) storages_kid [OF t] by blast
    qed
  qed
  have dict': "case d of None \<Rightarrow> ArrowArray.dictionary s = NULL
               | Some t \<Rightarrow> ArrowArray.dictionary s \<noteq> NULL \<and>
                   array_tree own m' (ArrowArray.dictionary s) t"
  proof (cases d)
    case None
    with dict show ?thesis by simp
  next
    case (Some t)
    with dict have q: "ArrowArray.dictionary s \<noteq> NULL"
      "array_tree own m (ArrowArray.dictionary s) t" by simp_all
    have "array_tree own m' (ArrowArray.dictionary s) t"
    proof (rule Node.IH(2) [OF _ q(2)])
      show "t \<in> set_option d" using Some by simp
      show "\<forall>a \<in> set (nodes t) \<union> set (leaked t). arrays m' a = arrays m a"
        using Node.prems(2) nodes_dict [of _ t a f c bs ts] leaked_dict [of _ t a f c bs ts]
        unfolding Some by blast
      show "\<forall>c \<in> set (containers t). pointer_arrays m' c = pointer_arrays m c"
        using Node.prems(3) containers_dict [of _ t a f c bs ts] unfolding Some by blast
      show "\<forall>b \<in> set (storages t). blocks m' b = blocks m b"
        using Node.prems(4) storages_dict [of _ t a f c bs ts] unfolding Some by blast
    qed
    with q Some show ?thesis by simp
  qed
  from p s' f c bs(1) bs' cs' kids' dict' show ?case by (rule array_tree_NodeI)
qed

subsection \<open>One release call on a tree\<close>

lemma free_pointer_array_purge_schemas:
  assumes "c \<noteq> NULL \<Longrightarrow> c \<notin> C \<and> (\<exists>ps. pointer_arrays m c = Some ps)"
  shows "free_pointer_array c (purge_schemas N C B m) =
    Some (purge_schemas N ((if c = NULL then {} else {c}) \<union> C) B m,
          if c = NULL then [] else [Dealloc c])"
proof (cases "c = NULL")
  case True
  then show ?thesis by (simp add: free_pointer_array_def)
next
  case False
  with assms obtain ps where c: "c \<notin> C" "pointer_arrays m c = Some ps" by blast
  then have 1: "pointer_arrays (purge_schemas N C B m) c = Some ps"
    by (simp add: purge_schemas_sel)
  from False 1 c(1) show ?thesis
    by (simp add: free_pointer_array_def purge_schemas_def Compl_insert)
qed

lemma free_owned_storage_purge_schemas:
  assumes "distinct (owned_storage own ps)"
    and "\<forall>b \<in> set (owned_storage own ps). b \<notin> B \<and> blocks m b \<noteq> None"
  shows "free_owned_storage own ps (purge_schemas N C B m) =
    Some (purge_schemas N C (B \<union> set (owned_storage own ps)) m,
          map Dealloc (owned_storage own ps))"
  using assms
proof (induction ps arbitrary: B)
  case Nil
  show ?case by (simp add: owned_storage_def)
next
  case (Cons a as)
  show ?case
  proof (cases "a = NULL \<or> a \<notin> own")
    case True
    then have o: "owned_storage own (a # as) = owned_storage own as"
      by (auto simp: owned_storage_def)
    from Cons.IH [of B] Cons.prems have
      "free_owned_storage own as (purge_schemas N C B m) =
         Some (purge_schemas N C (B \<union> set (owned_storage own as)) m,
               map Dealloc (owned_storage own as))"
      unfolding o by blast
    with True show ?thesis unfolding o by auto
  next
    case False
    then have o: "owned_storage own (a # as) = a # owned_storage own as"
      by (simp add: owned_storage_def)
    from Cons.prems(1) have d: "a \<notin> set (owned_storage own as)"
      "distinct (owned_storage own as)"
      unfolding o by simp_all
    from Cons.prems(2) have a: "a \<notin> B" "blocks m a \<noteq> None"
      and r: "\<forall>b \<in> set (owned_storage own as). b \<notin> B \<and> blocks m b \<noteq> None"
      unfolding o by simp_all
    from a obtain v where v: "blocks (purge_schemas N C B m) a = Some v"
      by (auto simp: purge_schemas_sel)
    have m: "(purge_schemas N C B m)\<lparr>blocks := (blocks (purge_schemas N C B m))(a := None)\<rparr> =
        purge_schemas N C (insert a B) m"
      using a(1) by (simp add: purge_schemas_def Compl_insert)
    have "\<forall>b \<in> set (owned_storage own as). b \<notin> insert a B \<and> blocks m b \<noteq> None"
      using r d(1) by auto
    from Cons.IH [OF d(2) this] have
      "free_owned_storage own as (purge_schemas N C (insert a B) m) =
         Some (purge_schemas N C (insert a B \<union> set (owned_storage own as)) m,
               map Dealloc (owned_storage own as))" .
    with False v m show ?thesis unfolding o by simp
  qed
qed

lemma store_schema_release_purge:
  assumes "a \<notin> N" "schemas m a = Some s"
  shows "store_schema_release a v (purge_schemas N C B m) =
    Some ((purge_schemas N C B m)
            \<lparr>schemas := (schemas (purge_schemas N C B m))(a \<mapsto> s\<lparr>ArrowSchema.release := v\<rparr>)\<rparr>,
          [Store_release a v])"
proof -
  from assms have "schemas (purge_schemas N C B m) a = Some s"
    by (simp add: purge_schemas_sel)
  then show ?thesis by (simp add: store_schema_release_def)
qed

lemma free_schema_purge:
  assumes "a \<notin> N"
  shows "free_schema a
      ((purge_schemas N C B m)\<lparr>schemas := (schemas (purge_schemas N C B m))(a \<mapsto> s')\<rparr>) =
    Some (purge_schemas (insert a N) C B m, [Dealloc a])"
  using assms by (simp add: free_schema_def purge_schemas_def Compl_insert)

lemma release_schema_children_trees:
  assumes IH: "\<And>t p m. t \<in> set ts \<Longrightarrow> schema_tree own m p t \<Longrightarrow> distinct (nodes t) \<Longrightarrow>
      set (nodes t) \<inter> set (leaked t) = {} \<Longrightarrow>
      distinct (containers t) \<Longrightarrow> distinct (storages t) \<Longrightarrow> height t \<le> k \<Longrightarrow>
      release_schema_if_live own k p m =
        Some (purge_schemas (set (nodes t)) (set (containers t)) (set (storages t)) m, trace t)"
    and "list_all2 (schema_tree own m) cs ts"
    and "distinct (concat (map nodes ts))"
    and "set (concat (map nodes ts)) \<inter> set (concat (map leaked ts)) = {}"
    and "distinct (concat (map containers ts))"
    and "distinct (concat (map storages ts))"
    and "\<forall>t \<in> set ts. height t \<le> k"
  shows "release_schema_children own k cs m =
    Some (purge_schemas (set (concat (map nodes ts))) (set (concat (map containers ts)))
            (set (concat (map storages ts))) m,
          concat (map trace ts))"
  using assms
proof (induction ts arbitrary: cs m)
  case Nil
  then show ?case by (simp add: purge_schemas_empty)
next
  case (Cons t ts)
  from Cons.prems(2) obtain c cs' where cs: "cs = c # cs'"
    and t: "schema_tree own m c t" and rest: "list_all2 (schema_tree own m) cs' ts"
    by (auto simp: list_all2_Cons2)
  from Cons.prems(3) have dn: "distinct (nodes t)" "distinct (concat (map nodes ts))"
    and xn: "set (nodes t) \<inter> set (concat (map nodes ts)) = {}"
    by simp_all
  from Cons.prems(4) have xl: "set (nodes t) \<inter> set (leaked t) = {}"
    "set (concat (map nodes ts)) \<inter> set (concat (map leaked ts)) = {}"
    "set (nodes t) \<inter> set (concat (map leaked ts)) = {}"
    by (simp_all add: Int_Un_distrib Int_Un_distrib2)
  from Cons.prems(5) have dc: "distinct (containers t)" "distinct (concat (map containers ts))"
    and xc: "set (containers t) \<inter> set (concat (map containers ts)) = {}"
    by simp_all
  from Cons.prems(6) have db: "distinct (storages t)" "distinct (concat (map storages ts))"
    and xb: "set (storages t) \<inter> set (concat (map storages ts)) = {}"
    by simp_all
  from Cons.prems(7) have h: "height t \<le> k" "\<forall>t \<in> set ts. height t \<le> k"
    by simp_all
  let ?m1 = "purge_schemas (set (nodes t)) (set (containers t)) (set (storages t)) m"
  have 1: "release_schema_if_live own k c m = Some (?m1, trace t)"
    using t dn(1) xl(1) dc(1) db(1) h(1) by (intro Cons.prems(1)) simp_all
  have rest1: "list_all2 (schema_tree own ?m1) cs' ts"
  proof (rule list.rel_mono_strong [OF rest])
    fix q u assume u: "u \<in> set ts" and q: "schema_tree own m q u"
    show "schema_tree own ?m1 q u"
    proof (rule schema_tree_frame [OF q])
      show "\<forall>a \<in> set (nodes u) \<union> set (leaked u). schemas ?m1 a = schemas m a"
        using xn xl(3) u by (auto simp: purge_schemas_sel)
      show "\<forall>c \<in> set (containers u). pointer_arrays ?m1 c = pointer_arrays m c"
        using xc u by (auto simp: purge_schemas_sel)
      show "\<forall>b \<in> set (storages u). blocks ?m1 b = blocks m b"
        using xb u by (auto simp: purge_schemas_sel)
    qed
  qed
  have 2: "release_schema_children own k cs' ?m1 =
    Some (purge_schemas (set (concat (map nodes ts))) (set (concat (map containers ts)))
            (set (concat (map storages ts))) ?m1,
          concat (map trace ts))"
  proof (rule Cons.IH [OF _ rest1 dn(2) xl(2) dc(2) db(2) h(2)])
    fix u p m assume "u \<in> set ts" "schema_tree own m p u" "distinct (nodes u)"
      "set (nodes u) \<inter> set (leaked u) = {}"
      "distinct (containers u)" "distinct (storages u)" "height u \<le> k"
    then show "release_schema_if_live own k p m =
      Some (purge_schemas (set (nodes u)) (set (containers u)) (set (storages u)) m, trace u)"
      by (intro Cons.prems(1)) simp_all
  qed
  from 1 2 show ?case
    by (simp add: cs purge_schemas_twice)
qed

lemma free_pointer_array_purge_arrays:
  assumes "c \<noteq> NULL \<Longrightarrow> c \<notin> C \<and> (\<exists>ps. pointer_arrays m c = Some ps)"
  shows "free_pointer_array c (purge_arrays N C B m) =
    Some (purge_arrays N ((if c = NULL then {} else {c}) \<union> C) B m,
          if c = NULL then [] else [Dealloc c])"
proof (cases "c = NULL")
  case True
  then show ?thesis by (simp add: free_pointer_array_def)
next
  case False
  with assms obtain ps where c: "c \<notin> C" "pointer_arrays m c = Some ps" by blast
  then have 1: "pointer_arrays (purge_arrays N C B m) c = Some ps"
    by (simp add: purge_arrays_sel)
  from False 1 c(1) show ?thesis
    by (simp add: free_pointer_array_def purge_arrays_def Compl_insert)
qed

lemma free_owned_storage_purge_arrays:
  assumes "distinct (owned_storage own ps)"
    and "\<forall>b \<in> set (owned_storage own ps). b \<notin> B \<and> blocks m b \<noteq> None"
  shows "free_owned_storage own ps (purge_arrays N C B m) =
    Some (purge_arrays N C (B \<union> set (owned_storage own ps)) m,
          map Dealloc (owned_storage own ps))"
  using assms
proof (induction ps arbitrary: B)
  case Nil
  show ?case by (simp add: owned_storage_def)
next
  case (Cons a as)
  show ?case
  proof (cases "a = NULL \<or> a \<notin> own")
    case True
    then have o: "owned_storage own (a # as) = owned_storage own as"
      by (auto simp: owned_storage_def)
    from Cons.IH [of B] Cons.prems have
      "free_owned_storage own as (purge_arrays N C B m) =
         Some (purge_arrays N C (B \<union> set (owned_storage own as)) m,
               map Dealloc (owned_storage own as))"
      unfolding o by blast
    with True show ?thesis unfolding o by auto
  next
    case False
    then have o: "owned_storage own (a # as) = a # owned_storage own as"
      by (simp add: owned_storage_def)
    from Cons.prems(1) have d: "a \<notin> set (owned_storage own as)"
      "distinct (owned_storage own as)"
      unfolding o by simp_all
    from Cons.prems(2) have a: "a \<notin> B" "blocks m a \<noteq> None"
      and r: "\<forall>b \<in> set (owned_storage own as). b \<notin> B \<and> blocks m b \<noteq> None"
      unfolding o by simp_all
    from a obtain v where v: "blocks (purge_arrays N C B m) a = Some v"
      by (auto simp: purge_arrays_sel)
    have m: "(purge_arrays N C B m)\<lparr>blocks := (blocks (purge_arrays N C B m))(a := None)\<rparr> =
        purge_arrays N C (insert a B) m"
      using a(1) by (simp add: purge_arrays_def Compl_insert)
    have "\<forall>b \<in> set (owned_storage own as). b \<notin> insert a B \<and> blocks m b \<noteq> None"
      using r d(1) by auto
    from Cons.IH [OF d(2) this] have
      "free_owned_storage own as (purge_arrays N C (insert a B) m) =
         Some (purge_arrays N C (insert a B \<union> set (owned_storage own as)) m,
               map Dealloc (owned_storage own as))" .
    with False v m show ?thesis unfolding o by simp
  qed
qed

lemma store_array_release_purge:
  assumes "a \<notin> N" "arrays m a = Some s"
  shows "store_array_release a v (purge_arrays N C B m) =
    Some ((purge_arrays N C B m)
            \<lparr>arrays := (arrays (purge_arrays N C B m))(a \<mapsto> s\<lparr>ArrowArray.release := v\<rparr>)\<rparr>,
          [Store_release a v])"
proof -
  from assms have "arrays (purge_arrays N C B m) a = Some s"
    by (simp add: purge_arrays_sel)
  then show ?thesis by (simp add: store_array_release_def)
qed

lemma free_array_purge:
  assumes "a \<notin> N"
  shows "free_array a
      ((purge_arrays N C B m)\<lparr>arrays := (arrays (purge_arrays N C B m))(a \<mapsto> s')\<rparr>) =
    Some (purge_arrays (insert a N) C B m, [Dealloc a])"
  using assms by (simp add: free_array_def purge_arrays_def Compl_insert)

lemma release_array_children_trees:
  assumes IH: "\<And>t p m. t \<in> set ts \<Longrightarrow> array_tree own m p t \<Longrightarrow> distinct (nodes t) \<Longrightarrow>
      set (nodes t) \<inter> set (leaked t) = {} \<Longrightarrow>
      distinct (containers t) \<Longrightarrow> distinct (storages t) \<Longrightarrow> height t \<le> k \<Longrightarrow>
      release_array_if_live own k p m =
        Some (purge_arrays (set (nodes t)) (set (containers t)) (set (storages t)) m, trace t)"
    and "list_all2 (array_tree own m) cs ts"
    and "distinct (concat (map nodes ts))"
    and "set (concat (map nodes ts)) \<inter> set (concat (map leaked ts)) = {}"
    and "distinct (concat (map containers ts))"
    and "distinct (concat (map storages ts))"
    and "\<forall>t \<in> set ts. height t \<le> k"
  shows "release_array_children own k cs m =
    Some (purge_arrays (set (concat (map nodes ts))) (set (concat (map containers ts)))
            (set (concat (map storages ts))) m,
          concat (map trace ts))"
  using assms
proof (induction ts arbitrary: cs m)
  case Nil
  then show ?case by (simp add: purge_arrays_empty)
next
  case (Cons t ts)
  from Cons.prems(2) obtain c cs' where cs: "cs = c # cs'"
    and t: "array_tree own m c t" and rest: "list_all2 (array_tree own m) cs' ts"
    by (auto simp: list_all2_Cons2)
  from Cons.prems(3) have dn: "distinct (nodes t)" "distinct (concat (map nodes ts))"
    and xn: "set (nodes t) \<inter> set (concat (map nodes ts)) = {}"
    by simp_all
  from Cons.prems(4) have xl: "set (nodes t) \<inter> set (leaked t) = {}"
    "set (concat (map nodes ts)) \<inter> set (concat (map leaked ts)) = {}"
    "set (nodes t) \<inter> set (concat (map leaked ts)) = {}"
    by (simp_all add: Int_Un_distrib Int_Un_distrib2)
  from Cons.prems(5) have dc: "distinct (containers t)" "distinct (concat (map containers ts))"
    and xc: "set (containers t) \<inter> set (concat (map containers ts)) = {}"
    by simp_all
  from Cons.prems(6) have db: "distinct (storages t)" "distinct (concat (map storages ts))"
    and xb: "set (storages t) \<inter> set (concat (map storages ts)) = {}"
    by simp_all
  from Cons.prems(7) have h: "height t \<le> k" "\<forall>t \<in> set ts. height t \<le> k"
    by simp_all
  let ?m1 = "purge_arrays (set (nodes t)) (set (containers t)) (set (storages t)) m"
  have 1: "release_array_if_live own k c m = Some (?m1, trace t)"
    using t dn(1) xl(1) dc(1) db(1) h(1) by (intro Cons.prems(1)) simp_all
  have rest1: "list_all2 (array_tree own ?m1) cs' ts"
  proof (rule list.rel_mono_strong [OF rest])
    fix q u assume u: "u \<in> set ts" and q: "array_tree own m q u"
    show "array_tree own ?m1 q u"
    proof (rule array_tree_frame [OF q])
      show "\<forall>a \<in> set (nodes u) \<union> set (leaked u). arrays ?m1 a = arrays m a"
        using xn xl(3) u by (auto simp: purge_arrays_sel)
      show "\<forall>c \<in> set (containers u). pointer_arrays ?m1 c = pointer_arrays m c"
        using xc u by (auto simp: purge_arrays_sel)
      show "\<forall>b \<in> set (storages u). blocks ?m1 b = blocks m b"
        using xb u by (auto simp: purge_arrays_sel)
    qed
  qed
  have 2: "release_array_children own k cs' ?m1 =
    Some (purge_arrays (set (concat (map nodes ts))) (set (concat (map containers ts)))
            (set (concat (map storages ts))) ?m1,
          concat (map trace ts))"
  proof (rule Cons.IH [OF _ rest1 dn(2) xl(2) dc(2) db(2) h(2)])
    fix u p m assume "u \<in> set ts" "array_tree own m p u" "distinct (nodes u)"
      "set (nodes u) \<inter> set (leaked u) = {}"
      "distinct (containers u)" "distinct (storages u)" "height u \<le> k"
    then show "release_array_if_live own k p m =
      Some (purge_arrays (set (nodes u)) (set (containers u)) (set (storages u)) m, trace u)"
      by (intro Cons.prems(1)) simp_all
  qed
  from 1 2 show ?case
    by (simp add: cs purge_arrays_twice)
qed

lemma release_schema_body_node:
  fixes ts d a f c bs
  defines "t \<equiv> Node a f c bs ts d"
  assumes kidsIH: "\<And>u p m. u \<in> set ts \<Longrightarrow> schema_tree own m p u \<Longrightarrow> distinct (nodes u) \<Longrightarrow>
      set (nodes u) \<inter> set (leaked u) = {} \<Longrightarrow>
      distinct (containers u) \<Longrightarrow> distinct (storages u) \<Longrightarrow> height u \<le> k \<Longrightarrow>
      release_schema_if_live own k p m =
        Some (purge_schemas (set (nodes u)) (set (containers u)) (set (storages u)) m, trace u)"
    and dictIH: "\<And>u p m. u \<in> set_option d \<Longrightarrow> schema_tree own m p u \<Longrightarrow> distinct (nodes u) \<Longrightarrow>
      set (nodes u) \<inter> set (leaked u) = {} \<Longrightarrow>
      distinct (containers u) \<Longrightarrow> distinct (storages u) \<Longrightarrow> height u \<le> k \<Longrightarrow>
      release_schema_if_live own k p m =
        Some (purge_schemas (set (nodes u)) (set (containers u)) (set (storages u)) m, trace u)"
    and tree: "schema_tree own m p t"
    and dist: "distinct (nodes t)" "set (nodes t) \<inter> set (leaked t) = {}"
      "distinct (containers t)" "distinct (storages t)"
    and hk: "\<forall>u \<in> set ts. height u \<le> k" "\<forall>u \<in> set_option d. height u \<le> k"
  shows "\<exists>s. schemas m a = Some s \<and> ArrowSchema.release s = f \<and>
     release_schema_body own (Suc k) a m =
       Some ((purge_schemas (set (nodes t) - {a}) (set (containers t)) (set (storages t)) m)
               \<lparr>schemas := (schemas (purge_schemas (set (nodes t) - {a}) (set (containers t))
                    (set (storages t)) m))(a \<mapsto> s\<lparr>ArrowSchema.release := NULL\<rparr>)\<rparr>,
             butlast (trace t))"
proof -
  from tree obtain s cs where
    p: "p = a" and s: "schemas m a = Some s"
    and f: "ArrowSchema.release s = f" "f \<noteq> NULL" and c: "ArrowSchema.children s = c"
    and bs: "owned_storage own (schema_storage s) = bs" "list_all (\<lambda>b. blocks m b \<noteq> None) bs"
    and cs: "pointer_array_prefix (ArrowSchema.n_children s) c m = Some cs"
    and kids: "list_all2 (schema_tree own m) cs ts"
    and dict: "case d of None \<Rightarrow> ArrowSchema.dictionary s = NULL
               | Some t \<Rightarrow> ArrowSchema.dictionary s \<noteq> NULL \<and>
                   schema_tree own m (ArrowSchema.dictionary s) t"
    unfolding t_def by (rule schema_tree_NodeE)
  let ?N1 = "set (concat (map nodes ts))" and ?C1 = "set (concat (map containers ts))"
  let ?B1 = "set (concat (map storages ts))"
  let ?Nd = "set (case d of None \<Rightarrow> [] | Some t \<Rightarrow> nodes t)"
  let ?Ld = "set (case d of None \<Rightarrow> [] | Some t \<Rightarrow> leaked t)"
  let ?Cd = "set (case d of None \<Rightarrow> [] | Some t \<Rightarrow> containers t)"
  let ?Bd = "set (case d of None \<Rightarrow> [] | Some t \<Rightarrow> storages t)"
  let ?ed = "case d of None \<Rightarrow> [] | Some t \<Rightarrow> trace t"
  from dist(1) have a: "a \<notin> ?N1" "a \<notin> ?Nd"
    and dn: "distinct (concat (map nodes ts))"
      "distinct (case d of None \<Rightarrow> [] | Some t \<Rightarrow> nodes t)"
    and xn: "?N1 \<inter> ?Nd = {}"
    unfolding t_def by simp_all
  from dist(2) have xl: "?N1 \<inter> set (concat (map leaked ts)) = {}" "?Nd \<inter> ?Ld = {}"
    "?N1 \<inter> ?Ld = {}"
    unfolding t_def by (simp_all add: Int_Un_distrib Int_Un_distrib2)
  from dist(3) have c': "c \<noteq> NULL \<Longrightarrow> c \<notin> ?C1 \<union> ?Cd"
    and dc: "distinct (concat (map containers ts))"
      "distinct (case d of None \<Rightarrow> [] | Some t \<Rightarrow> containers t)"
    and xc: "?C1 \<inter> ?Cd = {}"
    unfolding t_def by (simp_all split: if_splits)
  from dist(4) have b': "set bs \<inter> (?B1 \<union> ?Bd) = {}" "distinct bs"
    and db: "distinct (concat (map storages ts))"
      "distinct (case d of None \<Rightarrow> [] | Some t \<Rightarrow> storages t)"
    and xb: "?B1 \<inter> ?Bd = {}"
    unfolding t_def by (simp_all add: Int_Un_distrib)
  let ?m1 = "purge_schemas ?N1 ?C1 ?B1 m"
  have 1: "release_schema_children own k cs m = Some (?m1, concat (map trace ts))"
  proof (rule release_schema_children_trees [OF _ kids dn(1) xl(1) dc(1) db(1) hk(1)])
    fix u p m assume "u \<in> set ts" "schema_tree own m p u" "distinct (nodes u)"
      "set (nodes u) \<inter> set (leaked u) = {}"
      "distinct (containers u)" "distinct (storages u)" "height u \<le> k"
    then show "release_schema_if_live own k p m =
      Some (purge_schemas (set (nodes u)) (set (containers u)) (set (storages u)) m, trace u)"
      by (rule kidsIH)
  qed
  let ?m2 = "purge_schemas (?N1 \<union> ?Nd) (?C1 \<union> ?Cd) (?B1 \<union> ?Bd) m"
  have 2: "(if ArrowSchema.dictionary s = NULL then Some (?m1, [])
            else release_schema_if_live own k (ArrowSchema.dictionary s) ?m1) = Some (?m2, ?ed)"
  proof (cases d)
    case None
    with dict show ?thesis by simp
  next
    case (Some u)
    with dict have q: "ArrowSchema.dictionary s \<noteq> NULL"
      "schema_tree own m (ArrowSchema.dictionary s) u" by simp_all
    have "schema_tree own ?m1 (ArrowSchema.dictionary s) u"
    proof (rule schema_tree_frame [OF q(2)])
      show "\<forall>a \<in> set (nodes u) \<union> set (leaked u). schemas ?m1 a = schemas m a"
        using xn xl(3) Some by (auto simp: purge_schemas_sel)
      show "\<forall>c \<in> set (containers u). pointer_arrays ?m1 c = pointer_arrays m c"
        using xc Some by (auto simp: purge_schemas_sel)
      show "\<forall>b \<in> set (storages u). blocks ?m1 b = blocks m b"
        using xb Some by (auto simp: purge_schemas_sel)
    qed
    moreover have "u \<in> set_option d" "distinct (nodes u)"
      "set (nodes u) \<inter> set (leaked u) = {}" "distinct (containers u)"
      "distinct (storages u)" "height u \<le> k"
      using Some dn(2) xl(2) dc(2) db(2) hk(2) by simp_all
    ultimately have "release_schema_if_live own k (ArrowSchema.dictionary s) ?m1 =
      Some (purge_schemas (set (nodes u)) (set (containers u)) (set (storages u)) ?m1, trace u)"
      by (intro dictIH)
    with q(1) Some show ?thesis by (simp add: purge_schemas_twice)
  qed
  let ?C3 = "(if c = NULL then {} else {c}) \<union> (?C1 \<union> ?Cd)"
  let ?e3 = "if c = NULL then [] else [Dealloc c]"
  have "c \<noteq> NULL \<Longrightarrow> c \<notin> ?C1 \<union> ?Cd \<and> (\<exists>ps. pointer_arrays m c = Some ps)"
    using c' pointer_array_prefix_allocated [OF cs] by blast
  then have 3: "free_pointer_array c ?m2 =
      Some (purge_schemas (?N1 \<union> ?Nd) ?C3 (?B1 \<union> ?Bd) m, ?e3)"
    by (rule free_pointer_array_purge_schemas)
  let ?B4 = "?B1 \<union> ?Bd \<union> set bs"
  have "\<forall>b \<in> set (owned_storage own (schema_storage s)). b \<notin> ?B1 \<union> ?Bd \<and> blocks m b \<noteq> None"
    using b'(1) bs by (auto simp: list_all_iff)
  moreover have "distinct (owned_storage own (schema_storage s))"
    using b'(2) bs(1) by simp
  ultimately have 4: "free_owned_storage own (schema_storage s)
       (purge_schemas (?N1 \<union> ?Nd) ?C3 (?B1 \<union> ?Bd) m) =
      Some (purge_schemas (?N1 \<union> ?Nd) ?C3 ?B4 m, map Dealloc bs)"
    using free_owned_storage_purge_schemas
      [of own "schema_storage s" "?B1 \<union> ?Bd" m "?N1 \<union> ?Nd" ?C3]
    unfolding bs(1) by blast
  from a have an: "a \<notin> ?N1 \<union> ?Nd" by simp
  let ?m4 = "purge_schemas (?N1 \<union> ?Nd) ?C3 ?B4 m"
  let ?m5 = "?m4\<lparr>schemas := (schemas ?m4)(a \<mapsto> s\<lparr>ArrowSchema.release := NULL\<rparr>)\<rparr>"
  have 5: "store_schema_release a NULL ?m4 = Some (?m5, [Store_release a NULL])"
    using an s by (rule store_schema_release_purge)
  have N: "?N1 \<union> ?Nd = set (nodes t) - {a}"
    using a unfolding t_def by auto
  have C: "?C3 = set (containers t)"
    unfolding t_def by simp
  have B: "?B4 = set (storages t)"
    unfolding t_def by auto
  have e: "Call f a # concat (map trace ts) @ ?ed @ ?e3 @ map Dealloc bs @ [Store_release a NULL] =
      butlast (trace t)"
    unfolding t_def by (simp add: butlast_append)
  have "release_schema_body own (Suc k) a m =
      Some (?m5, Call f a # concat (map trace ts) @ ?ed @ ?e3 @ map Dealloc bs @
        [Store_release a NULL])"
    unfolding release_schema_body.simps
    by (simp only: s f c cs 1 2 3 4 5 option.case prod.case if_False)
  then have "release_schema_body own (Suc k) a m =
       Some ((purge_schemas (set (nodes t) - {a}) (set (containers t)) (set (storages t)) m)
               \<lparr>schemas := (schemas (purge_schemas (set (nodes t) - {a}) (set (containers t))
                    (set (storages t)) m))(a \<mapsto> s\<lparr>ArrowSchema.release := NULL\<rparr>)\<rparr>,
             butlast (trace t))"
    unfolding N C B e .
  with s f(1) show ?thesis by blast
qed

lemma release_array_body_node:
  fixes ts d a f c bs
  defines "t \<equiv> Node a f c bs ts d"
  assumes kidsIH: "\<And>u p m. u \<in> set ts \<Longrightarrow> array_tree own m p u \<Longrightarrow> distinct (nodes u) \<Longrightarrow>
      set (nodes u) \<inter> set (leaked u) = {} \<Longrightarrow>
      distinct (containers u) \<Longrightarrow> distinct (storages u) \<Longrightarrow> height u \<le> k \<Longrightarrow>
      release_array_if_live own k p m =
        Some (purge_arrays (set (nodes u)) (set (containers u)) (set (storages u)) m, trace u)"
    and dictIH: "\<And>u p m. u \<in> set_option d \<Longrightarrow> array_tree own m p u \<Longrightarrow> distinct (nodes u) \<Longrightarrow>
      set (nodes u) \<inter> set (leaked u) = {} \<Longrightarrow>
      distinct (containers u) \<Longrightarrow> distinct (storages u) \<Longrightarrow> height u \<le> k \<Longrightarrow>
      release_array_if_live own k p m =
        Some (purge_arrays (set (nodes u)) (set (containers u)) (set (storages u)) m, trace u)"
    and tree: "array_tree own m p t"
    and dist: "distinct (nodes t)" "set (nodes t) \<inter> set (leaked t) = {}"
      "distinct (containers t)" "distinct (storages t)"
    and hk: "\<forall>u \<in> set ts. height u \<le> k" "\<forall>u \<in> set_option d. height u \<le> k"
  shows "\<exists>s. arrays m a = Some s \<and> ArrowArray.release s = f \<and>
     release_array_body own (Suc k) a m =
       Some ((purge_arrays (set (nodes t) - {a}) (set (containers t)) (set (storages t)) m)
               \<lparr>arrays := (arrays (purge_arrays (set (nodes t) - {a}) (set (containers t))
                    (set (storages t)) m))(a \<mapsto> s\<lparr>ArrowArray.release := NULL\<rparr>)\<rparr>,
             butlast (trace t))"
proof -
  from tree obtain s cs where
    p: "p = a" and s: "arrays m a = Some s"
    and f: "ArrowArray.release s = f" "f \<noteq> NULL" and c: "ArrowArray.children s = c"
    and bs: "owned_storage own (array_storage s) = bs" "list_all (\<lambda>b. blocks m b \<noteq> None) bs"
    and cs: "pointer_array_prefix (ArrowArray.n_children s) c m = Some cs"
    and kids: "list_all2 (array_tree own m) cs ts"
    and dict: "case d of None \<Rightarrow> ArrowArray.dictionary s = NULL
               | Some t \<Rightarrow> ArrowArray.dictionary s \<noteq> NULL \<and>
                   array_tree own m (ArrowArray.dictionary s) t"
    unfolding t_def by (rule array_tree_NodeE)
  let ?N1 = "set (concat (map nodes ts))" and ?C1 = "set (concat (map containers ts))"
  let ?B1 = "set (concat (map storages ts))"
  let ?Nd = "set (case d of None \<Rightarrow> [] | Some t \<Rightarrow> nodes t)"
  let ?Ld = "set (case d of None \<Rightarrow> [] | Some t \<Rightarrow> leaked t)"
  let ?Cd = "set (case d of None \<Rightarrow> [] | Some t \<Rightarrow> containers t)"
  let ?Bd = "set (case d of None \<Rightarrow> [] | Some t \<Rightarrow> storages t)"
  let ?ed = "case d of None \<Rightarrow> [] | Some t \<Rightarrow> trace t"
  from dist(1) have a: "a \<notin> ?N1" "a \<notin> ?Nd"
    and dn: "distinct (concat (map nodes ts))"
      "distinct (case d of None \<Rightarrow> [] | Some t \<Rightarrow> nodes t)"
    and xn: "?N1 \<inter> ?Nd = {}"
    unfolding t_def by simp_all
  from dist(2) have xl: "?N1 \<inter> set (concat (map leaked ts)) = {}" "?Nd \<inter> ?Ld = {}"
    "?N1 \<inter> ?Ld = {}"
    unfolding t_def by (simp_all add: Int_Un_distrib Int_Un_distrib2)
  from dist(3) have c': "c \<noteq> NULL \<Longrightarrow> c \<notin> ?C1 \<union> ?Cd"
    and dc: "distinct (concat (map containers ts))"
      "distinct (case d of None \<Rightarrow> [] | Some t \<Rightarrow> containers t)"
    and xc: "?C1 \<inter> ?Cd = {}"
    unfolding t_def by (simp_all split: if_splits)
  from dist(4) have b': "set bs \<inter> (?B1 \<union> ?Bd) = {}" "distinct bs"
    and db: "distinct (concat (map storages ts))"
      "distinct (case d of None \<Rightarrow> [] | Some t \<Rightarrow> storages t)"
    and xb: "?B1 \<inter> ?Bd = {}"
    unfolding t_def by (simp_all add: Int_Un_distrib)
  let ?m1 = "purge_arrays ?N1 ?C1 ?B1 m"
  have 1: "release_array_children own k cs m = Some (?m1, concat (map trace ts))"
  proof (rule release_array_children_trees [OF _ kids dn(1) xl(1) dc(1) db(1) hk(1)])
    fix u p m assume "u \<in> set ts" "array_tree own m p u" "distinct (nodes u)"
      "set (nodes u) \<inter> set (leaked u) = {}"
      "distinct (containers u)" "distinct (storages u)" "height u \<le> k"
    then show "release_array_if_live own k p m =
      Some (purge_arrays (set (nodes u)) (set (containers u)) (set (storages u)) m, trace u)"
      by (rule kidsIH)
  qed
  let ?m2 = "purge_arrays (?N1 \<union> ?Nd) (?C1 \<union> ?Cd) (?B1 \<union> ?Bd) m"
  have 2: "(if ArrowArray.dictionary s = NULL then Some (?m1, [])
            else release_array_if_live own k (ArrowArray.dictionary s) ?m1) = Some (?m2, ?ed)"
  proof (cases d)
    case None
    with dict show ?thesis by simp
  next
    case (Some u)
    with dict have q: "ArrowArray.dictionary s \<noteq> NULL"
      "array_tree own m (ArrowArray.dictionary s) u" by simp_all
    have "array_tree own ?m1 (ArrowArray.dictionary s) u"
    proof (rule array_tree_frame [OF q(2)])
      show "\<forall>a \<in> set (nodes u) \<union> set (leaked u). arrays ?m1 a = arrays m a"
        using xn xl(3) Some by (auto simp: purge_arrays_sel)
      show "\<forall>c \<in> set (containers u). pointer_arrays ?m1 c = pointer_arrays m c"
        using xc Some by (auto simp: purge_arrays_sel)
      show "\<forall>b \<in> set (storages u). blocks ?m1 b = blocks m b"
        using xb Some by (auto simp: purge_arrays_sel)
    qed
    moreover have "u \<in> set_option d" "distinct (nodes u)"
      "set (nodes u) \<inter> set (leaked u) = {}" "distinct (containers u)"
      "distinct (storages u)" "height u \<le> k"
      using Some dn(2) xl(2) dc(2) db(2) hk(2) by simp_all
    ultimately have "release_array_if_live own k (ArrowArray.dictionary s) ?m1 =
      Some (purge_arrays (set (nodes u)) (set (containers u)) (set (storages u)) ?m1, trace u)"
      by (intro dictIH)
    with q(1) Some show ?thesis by (simp add: purge_arrays_twice)
  qed
  let ?C3 = "(if c = NULL then {} else {c}) \<union> (?C1 \<union> ?Cd)"
  let ?e3 = "if c = NULL then [] else [Dealloc c]"
  have "c \<noteq> NULL \<Longrightarrow> c \<notin> ?C1 \<union> ?Cd \<and> (\<exists>ps. pointer_arrays m c = Some ps)"
    using c' pointer_array_prefix_allocated [OF cs] by blast
  then have 3: "free_pointer_array c ?m2 =
      Some (purge_arrays (?N1 \<union> ?Nd) ?C3 (?B1 \<union> ?Bd) m, ?e3)"
    by (rule free_pointer_array_purge_arrays)
  let ?B4 = "?B1 \<union> ?Bd \<union> set bs"
  have "\<forall>b \<in> set (owned_storage own (array_storage s)). b \<notin> ?B1 \<union> ?Bd \<and> blocks m b \<noteq> None"
    using b'(1) bs by (auto simp: list_all_iff)
  moreover have "distinct (owned_storage own (array_storage s))"
    using b'(2) bs(1) by simp
  ultimately have 4: "free_owned_storage own (array_storage s)
       (purge_arrays (?N1 \<union> ?Nd) ?C3 (?B1 \<union> ?Bd) m) =
      Some (purge_arrays (?N1 \<union> ?Nd) ?C3 ?B4 m, map Dealloc bs)"
    using free_owned_storage_purge_arrays
      [of own "array_storage s" "?B1 \<union> ?Bd" m "?N1 \<union> ?Nd" ?C3]
    unfolding bs(1) by blast
  from a have an: "a \<notin> ?N1 \<union> ?Nd" by simp
  let ?m4 = "purge_arrays (?N1 \<union> ?Nd) ?C3 ?B4 m"
  let ?m5 = "?m4\<lparr>arrays := (arrays ?m4)(a \<mapsto> s\<lparr>ArrowArray.release := NULL\<rparr>)\<rparr>"
  have 5: "store_array_release a NULL ?m4 = Some (?m5, [Store_release a NULL])"
    using an s by (rule store_array_release_purge)
  have N: "?N1 \<union> ?Nd = set (nodes t) - {a}"
    using a unfolding t_def by auto
  have C: "?C3 = set (containers t)"
    unfolding t_def by simp
  have B: "?B4 = set (storages t)"
    unfolding t_def by auto
  have e: "Call f a # concat (map trace ts) @ ?ed @ ?e3 @ map Dealloc bs @ [Store_release a NULL] =
      butlast (trace t)"
    unfolding t_def by (simp add: butlast_append)
  have "release_array_body own (Suc k) a m =
      Some (?m5, Call f a # concat (map trace ts) @ ?ed @ ?e3 @ map Dealloc bs @
        [Store_release a NULL])"
    unfolding release_array_body.simps
    by (simp only: s f c cs 1 2 3 4 5 option.case prod.case if_False)
  then have "release_array_body own (Suc k) a m =
       Some ((purge_arrays (set (nodes t) - {a}) (set (containers t)) (set (storages t)) m)
               \<lparr>arrays := (arrays (purge_arrays (set (nodes t) - {a}) (set (containers t))
                    (set (storages t)) m))(a \<mapsto> s\<lparr>ArrowArray.release := NULL\<rparr>)\<rparr>,
             butlast (trace t))"
    unfolding N C B e .
  with s f(1) show ?thesis by blast
qed

lemma release_schema_if_live_tree:
  assumes "schema_tree own m p t" "distinct (nodes t)" "set (nodes t) \<inter> set (leaked t) = {}"
    "distinct (containers t)" "distinct (storages t)" "height t \<le> k"
  shows "release_schema_if_live own k p m =
    Some (purge_schemas (set (nodes t)) (set (containers t)) (set (storages t)) m, trace t)"
  using assms
proof (induction t arbitrary: p m k)
  case (Leaked a)
  from Leaked.prems(1) obtain s where "p = a" "schemas m a = Some s"
    "ArrowSchema.release s = NULL"
    by (rule schema_tree_LeakedE)
  then show ?case by (simp add: purge_schemas_empty)
next
  case (Node a f c bs ts d)
  let ?t = "Node a f c bs ts d"
  have p: "p = a" using Node.prems(1) by (rule schema_tree_NodeE)
  have f: "f \<noteq> NULL" using Node.prems(1) by (rule schema_tree_NodeE)
  from Node.prems(6) obtain k' where k: "k = Suc k'"
    and hk: "\<forall>t \<in> set ts. height t \<le> k'" "\<forall>t \<in> set_option d. height t \<le> k'"
    by (rule height_NodeE)
  from release_schema_body_node [of ts own k' d m p a f c bs,
      OF Node.IH(1) Node.IH(2) Node.prems(1-5) hk]
  obtain s where s: "schemas m a = Some s" "ArrowSchema.release s = f"
    and body: "release_schema_body own (Suc k') a m =
       Some ((purge_schemas (set (nodes ?t) - {a}) (set (containers ?t)) (set (storages ?t)) m)
               \<lparr>schemas := (schemas (purge_schemas (set (nodes ?t) - {a}) (set (containers ?t))
                    (set (storages ?t)) m))(a \<mapsto> s\<lparr>ArrowSchema.release := NULL\<rparr>)\<rparr>,
             butlast (trace ?t))"
    by blast
  have "a \<notin> set (nodes ?t) - {a}" by simp
  then have free: "free_schema a
      ((purge_schemas (set (nodes ?t) - {a}) (set (containers ?t)) (set (storages ?t)) m)
         \<lparr>schemas := (schemas (purge_schemas (set (nodes ?t) - {a}) (set (containers ?t))
              (set (storages ?t)) m))(a \<mapsto> s\<lparr>ArrowSchema.release := NULL\<rparr>)\<rparr>) =
      Some (purge_schemas (insert a (set (nodes ?t) - {a})) (set (containers ?t))
              (set (storages ?t)) m, [Dealloc a])"
    by (rule free_schema_purge)
  have N: "insert a (set (nodes ?t) - {a}) = set (nodes ?t)" by auto
  have e: "butlast (trace ?t) @ [Dealloc a] = trace ?t"
    by (simp add: butlast_append)
  have "release_schema own (Suc k') a m =
      Some (purge_schemas (set (nodes ?t)) (set (containers ?t)) (set (storages ?t)) m,
            trace ?t)"
    unfolding release_schema.simps
    by (simp only: body free option.case prod.case N e)
  with s f show ?case
    unfolding p k release_schema_if_live.simps by simp
qed

lemma release_schema_tree:
  assumes "schema_tree own m p t" "live t" "distinct (nodes t)"
    "set (nodes t) \<inter> set (leaked t) = {}"
    "distinct (containers t)" "distinct (storages t)" "height t \<le> k"
  shows "\<exists>s m5. schemas m p = Some s \<and> ArrowSchema.release s \<noteq> NULL \<and>
     release_schema_body own k p m = Some (m5, butlast (trace t)) \<and>
     schemas m5 p = Some (s\<lparr>ArrowSchema.release := NULL\<rparr>) \<and>
     free_schema p m5 =
       Some (purge_schemas (set (nodes t)) (set (containers t)) (set (storages t)) m,
             [Dealloc p]) \<and>
     release_schema own k p m =
       Some (purge_schemas (set (nodes t)) (set (containers t)) (set (storages t)) m, trace t)"
proof -
  from assms(2) obtain a f c bs ts d where t: "t = Node a f c bs ts d"
    by (cases t) simp_all
  have p: "p = a" using assms(1) unfolding t by (rule schema_tree_NodeE)
  have f: "f \<noteq> NULL" using assms(1) unfolding t by (rule schema_tree_NodeE)
  from assms(7) obtain k' where k: "k = Suc k'"
    and hk: "\<forall>t \<in> set ts. height t \<le> k'" "\<forall>t \<in> set_option d. height t \<le> k'"
    unfolding t by (rule height_NodeE)
  have IH: "\<And>u p m. schema_tree own m p u \<Longrightarrow> distinct (nodes u) \<Longrightarrow>
      set (nodes u) \<inter> set (leaked u) = {} \<Longrightarrow>
      distinct (containers u) \<Longrightarrow> distinct (storages u) \<Longrightarrow> height u \<le> k' \<Longrightarrow>
      release_schema_if_live own k' p m =
        Some (purge_schemas (set (nodes u)) (set (containers u)) (set (storages u)) m, trace u)"
    by (rule release_schema_if_live_tree)
  from release_schema_body_node [of ts own k' d m p a f c bs,
      OF IH IH assms(1,3-6) [unfolded t] hk]
  obtain s where s: "schemas m a = Some s" "ArrowSchema.release s = f"
    and body: "release_schema_body own (Suc k') a m =
       Some ((purge_schemas (set (nodes t) - {a}) (set (containers t)) (set (storages t)) m)
               \<lparr>schemas := (schemas (purge_schemas (set (nodes t) - {a}) (set (containers t))
                    (set (storages t)) m))(a \<mapsto> s\<lparr>ArrowSchema.release := NULL\<rparr>)\<rparr>,
             butlast (trace t))"
    unfolding t by blast
  let ?m5 = "(purge_schemas (set (nodes t) - {a}) (set (containers t)) (set (storages t)) m)
               \<lparr>schemas := (schemas (purge_schemas (set (nodes t) - {a}) (set (containers t))
                    (set (storages t)) m))(a \<mapsto> s\<lparr>ArrowSchema.release := NULL\<rparr>)\<rparr>"
  have m5: "schemas ?m5 a = Some (s\<lparr>ArrowSchema.release := NULL\<rparr>)" by simp
  have "a \<notin> set (nodes t) - {a}" by simp
  then have "free_schema a ?m5 =
      Some (purge_schemas (insert a (set (nodes t) - {a})) (set (containers t))
              (set (storages t)) m, [Dealloc a])"
    by (rule free_schema_purge)
  moreover have "insert a (set (nodes t) - {a}) = set (nodes t)"
    unfolding t by auto
  ultimately have free: "free_schema a ?m5 =
      Some (purge_schemas (set (nodes t)) (set (containers t)) (set (storages t)) m,
            [Dealloc a])"
    by simp
  have "release_schema_if_live own k p m =
    Some (purge_schemas (set (nodes t)) (set (containers t)) (set (storages t)) m, trace t)"
    using assms(1,3-7) by (rule release_schema_if_live_tree)
  with s f have run: "release_schema own k p m =
    Some (purge_schemas (set (nodes t)) (set (containers t)) (set (storages t)) m, trace t)"
    unfolding p release_schema_if_live.simps by simp
  from s f body m5 free run show ?thesis
    unfolding p k by blast
qed

lemma release_array_if_live_tree:
  assumes "array_tree own m p t" "distinct (nodes t)" "set (nodes t) \<inter> set (leaked t) = {}"
    "distinct (containers t)" "distinct (storages t)" "height t \<le> k"
  shows "release_array_if_live own k p m =
    Some (purge_arrays (set (nodes t)) (set (containers t)) (set (storages t)) m, trace t)"
  using assms
proof (induction t arbitrary: p m k)
  case (Leaked a)
  from Leaked.prems(1) obtain s where "p = a" "arrays m a = Some s"
    "ArrowArray.release s = NULL"
    by (rule array_tree_LeakedE)
  then show ?case by (simp add: purge_arrays_empty)
next
  case (Node a f c bs ts d)
  let ?t = "Node a f c bs ts d"
  have p: "p = a" using Node.prems(1) by (rule array_tree_NodeE)
  have f: "f \<noteq> NULL" using Node.prems(1) by (rule array_tree_NodeE)
  from Node.prems(6) obtain k' where k: "k = Suc k'"
    and hk: "\<forall>t \<in> set ts. height t \<le> k'" "\<forall>t \<in> set_option d. height t \<le> k'"
    by (rule height_NodeE)
  from release_array_body_node [of ts own k' d m p a f c bs,
      OF Node.IH(1) Node.IH(2) Node.prems(1-5) hk]
  obtain s where s: "arrays m a = Some s" "ArrowArray.release s = f"
    and body: "release_array_body own (Suc k') a m =
       Some ((purge_arrays (set (nodes ?t) - {a}) (set (containers ?t)) (set (storages ?t)) m)
               \<lparr>arrays := (arrays (purge_arrays (set (nodes ?t) - {a}) (set (containers ?t))
                    (set (storages ?t)) m))(a \<mapsto> s\<lparr>ArrowArray.release := NULL\<rparr>)\<rparr>,
             butlast (trace ?t))"
    by blast
  have "a \<notin> set (nodes ?t) - {a}" by simp
  then have free: "free_array a
      ((purge_arrays (set (nodes ?t) - {a}) (set (containers ?t)) (set (storages ?t)) m)
         \<lparr>arrays := (arrays (purge_arrays (set (nodes ?t) - {a}) (set (containers ?t))
              (set (storages ?t)) m))(a \<mapsto> s\<lparr>ArrowArray.release := NULL\<rparr>)\<rparr>) =
      Some (purge_arrays (insert a (set (nodes ?t) - {a})) (set (containers ?t))
              (set (storages ?t)) m, [Dealloc a])"
    by (rule free_array_purge)
  have N: "insert a (set (nodes ?t) - {a}) = set (nodes ?t)" by auto
  have e: "butlast (trace ?t) @ [Dealloc a] = trace ?t"
    by (simp add: butlast_append)
  have "release_array own (Suc k') a m =
      Some (purge_arrays (set (nodes ?t)) (set (containers ?t)) (set (storages ?t)) m,
            trace ?t)"
    unfolding release_array.simps
    by (simp only: body free option.case prod.case N e)
  with s f show ?case
    unfolding p k release_array_if_live.simps by simp
qed

lemma release_array_tree:
  assumes "array_tree own m p t" "live t" "distinct (nodes t)"
    "set (nodes t) \<inter> set (leaked t) = {}"
    "distinct (containers t)" "distinct (storages t)" "height t \<le> k"
  shows "\<exists>s m5. arrays m p = Some s \<and> ArrowArray.release s \<noteq> NULL \<and>
     release_array_body own k p m = Some (m5, butlast (trace t)) \<and>
     arrays m5 p = Some (s\<lparr>ArrowArray.release := NULL\<rparr>) \<and>
     free_array p m5 =
       Some (purge_arrays (set (nodes t)) (set (containers t)) (set (storages t)) m,
             [Dealloc p]) \<and>
     release_array own k p m =
       Some (purge_arrays (set (nodes t)) (set (containers t)) (set (storages t)) m, trace t)"
proof -
  from assms(2) obtain a f c bs ts d where t: "t = Node a f c bs ts d"
    by (cases t) simp_all
  have p: "p = a" using assms(1) unfolding t by (rule array_tree_NodeE)
  have f: "f \<noteq> NULL" using assms(1) unfolding t by (rule array_tree_NodeE)
  from assms(7) obtain k' where k: "k = Suc k'"
    and hk: "\<forall>t \<in> set ts. height t \<le> k'" "\<forall>t \<in> set_option d. height t \<le> k'"
    unfolding t by (rule height_NodeE)
  have IH: "\<And>u p m. array_tree own m p u \<Longrightarrow> distinct (nodes u) \<Longrightarrow>
      set (nodes u) \<inter> set (leaked u) = {} \<Longrightarrow>
      distinct (containers u) \<Longrightarrow> distinct (storages u) \<Longrightarrow> height u \<le> k' \<Longrightarrow>
      release_array_if_live own k' p m =
        Some (purge_arrays (set (nodes u)) (set (containers u)) (set (storages u)) m, trace u)"
    by (rule release_array_if_live_tree)
  from release_array_body_node [of ts own k' d m p a f c bs,
      OF IH IH assms(1,3-6) [unfolded t] hk]
  obtain s where s: "arrays m a = Some s" "ArrowArray.release s = f"
    and body: "release_array_body own (Suc k') a m =
       Some ((purge_arrays (set (nodes t) - {a}) (set (containers t)) (set (storages t)) m)
               \<lparr>arrays := (arrays (purge_arrays (set (nodes t) - {a}) (set (containers t))
                    (set (storages t)) m))(a \<mapsto> s\<lparr>ArrowArray.release := NULL\<rparr>)\<rparr>,
             butlast (trace t))"
    unfolding t by blast
  let ?m5 = "(purge_arrays (set (nodes t) - {a}) (set (containers t)) (set (storages t)) m)
               \<lparr>arrays := (arrays (purge_arrays (set (nodes t) - {a}) (set (containers t))
                    (set (storages t)) m))(a \<mapsto> s\<lparr>ArrowArray.release := NULL\<rparr>)\<rparr>"
  have m5: "arrays ?m5 a = Some (s\<lparr>ArrowArray.release := NULL\<rparr>)" by simp
  have "a \<notin> set (nodes t) - {a}" by simp
  then have "free_array a ?m5 =
      Some (purge_arrays (insert a (set (nodes t) - {a})) (set (containers t))
              (set (storages t)) m, [Dealloc a])"
    by (rule free_array_purge)
  moreover have "insert a (set (nodes t) - {a}) = set (nodes t)"
    unfolding t by auto
  ultimately have free: "free_array a ?m5 =
      Some (purge_arrays (set (nodes t)) (set (containers t)) (set (storages t)) m,
            [Dealloc a])"
    by simp
  have "release_array_if_live own k p m =
    Some (purge_arrays (set (nodes t)) (set (containers t)) (set (storages t)) m, trace t)"
    using assms(1,3-7) by (rule release_array_if_live_tree)
  with s f have run: "release_array own k p m =
    Some (purge_arrays (set (nodes t)) (set (containers t)) (set (storages t)) m, trace t)"
    unfolding p release_array_if_live.simps by simp
  from s f body m5 free run show ?thesis
    unfolding p k by blast
qed

subsection \<open>The effects of a release call\<close>

lemma released_append: "released (xs @ ys) = released xs @ released ys"
  by (induction xs rule: released.induct) simp_all

lemma released_concat: "released (concat xss) = concat (map released xss)"
  by (induction xss) (simp_all add: released_append)

lemma released_deallocs: "released (map Dealloc bs) = []"
  by (induction bs) simp_all

lemma released_trace: "released (trace t) = nodes t"
proof (induction t)
  case (Node a f c bs ts d)
  have kids: "map (\<lambda>t. released (trace t)) ts = map nodes ts"
    by (rule map_cong [OF refl]) (rule Node.IH(1))
  have dict: "released (case d of None \<Rightarrow> [] | Some t \<Rightarrow> trace t) =
      (case d of None \<Rightarrow> [] | Some t \<Rightarrow> nodes t)"
    using Node.IH(2) by (cases d) simp_all
  show ?case
    by (simp add: released_append released_concat released_deallocs comp_def kids dict)
next
  case (Leaked a)
  show ?case by simp
qed

lemma event_keys_trace:
  "mset (map event_key (trace t)) =
     mset (map (Pair 0) (nodes t)) + mset (map (Pair 1) (nodes t)) +
     mset (map (Pair 2) (nodes t)) + mset (map (Pair 2) (containers t)) +
     mset (map (Pair 2) (storages t))"
proof (induction t)
  case (Leaked a)
  show ?case by simp
next
  case (Node a f c bs ts d)
  have "map (\<lambda>t. mset (map event_key (trace t))) ts =
      map (\<lambda>t. mset (map (Pair 0) (nodes t)) + mset (map (Pair 1) (nodes t)) +
        mset (map (Pair 2) (nodes t)) + mset (map (Pair 2) (containers t)) +
        mset (map (Pair 2) (storages t))) ts"
    by (rule map_cong [OF refl]) (rule Node.IH(1))
  then have "(\<Sum>t\<leftarrow>ts. mset (map event_key (trace t))) =
      (\<Sum>t\<leftarrow>ts. mset (map (Pair 0) (nodes t)) + mset (map (Pair 1) (nodes t)) +
        mset (map (Pair 2) (nodes t)) + mset (map (Pair 2) (containers t)) +
        mset (map (Pair 2) (storages t)))"
    by (rule arg_cong)
  then have kids: "(\<Sum>t\<leftarrow>ts. mset (map event_key (trace t))) =
      (\<Sum>t\<leftarrow>ts. mset (map (Pair 0) (nodes t))) + (\<Sum>t\<leftarrow>ts. mset (map (Pair 1) (nodes t))) +
      (\<Sum>t\<leftarrow>ts. mset (map (Pair 2) (nodes t))) + (\<Sum>t\<leftarrow>ts. mset (map (Pair 2) (containers t))) +
      (\<Sum>t\<leftarrow>ts. mset (map (Pair 2) (storages t)))"
    by (simp only: sum_list_addf)
  have dict: "mset (map event_key (case d of None \<Rightarrow> [] | Some t \<Rightarrow> trace t)) =
      mset (map (Pair 0) (case d of None \<Rightarrow> [] | Some t \<Rightarrow> nodes t)) +
      mset (map (Pair 1) (case d of None \<Rightarrow> [] | Some t \<Rightarrow> nodes t)) +
      mset (map (Pair 2) (case d of None \<Rightarrow> [] | Some t \<Rightarrow> nodes t)) +
      mset (map (Pair 2) (case d of None \<Rightarrow> [] | Some t \<Rightarrow> containers t)) +
      mset (map (Pair 2) (case d of None \<Rightarrow> [] | Some t \<Rightarrow> storages t))"
    using Node.IH(2) by (cases d) simp_all
  have deallocs: "map event_key (map Dealloc bs) = map (Pair 2) bs"
    by simp
  have "mset (map event_key (trace (Node a f c bs ts d))) =
      {#(0, a)#} + (\<Sum>t\<leftarrow>ts. mset (map event_key (trace t))) +
      mset (map event_key (case d of None \<Rightarrow> [] | Some t \<Rightarrow> trace t)) +
      (if c = NULL then {#} else {#(2, c)#}) + mset (map (Pair 2) bs) +
      {#(1, a)#} + {#(2, a)#}"
    unfolding trace.simps map_append deallocs
    by (simp del: mset_map add: map_concat mset_concat comp_def)
  also have "\<dots> = mset (map (Pair 0) (nodes (Node a f c bs ts d))) +
      mset (map (Pair 1) (nodes (Node a f c bs ts d))) +
      mset (map (Pair 2) (nodes (Node a f c bs ts d))) +
      mset (map (Pair 2) (containers (Node a f c bs ts d))) +
      mset (map (Pair 2) (storages (Node a f c bs ts d)))"
    unfolding kids dict
    by (simp del: mset_map add: map_concat mset_concat comp_def)
  finally show ?case .
qed

lemma distinct_trace:
  assumes "distinct (nodes t @ containers t @ storages t)"
  shows "distinct (trace t)"
proof -
  let ?ks = "map (Pair 0) (nodes t) @ map (Pair (Suc 0)) (nodes t) @
      map (Pair 2) (nodes t @ containers t @ storages t)"
  have eq: "mset (map event_key (trace t)) = mset ?ks"
    by (simp del: mset_map add: event_keys_trace)
  from assms have n: "distinct (nodes t)" by simp
  have 0: "distinct (map (Pair (0::nat)) (nodes t))"
    using n by (simp add: distinct_map inj_on_def)
  have 1: "distinct (map (Pair (Suc 0)) (nodes t))"
    using n by (simp add: distinct_map inj_on_def)
  have 2: "distinct (map (Pair (2::nat)) (nodes t @ containers t @ storages t))"
    using assms by (simp only: distinct_map) (simp add: inj_on_def)
  have x: "set (map (Pair (0::nat)) (nodes t)) \<inter> set (map (Pair (Suc 0)) (nodes t)) = {}"
    "set (map (Pair (0::nat)) (nodes t)) \<inter>
       set (map (Pair 2) (nodes t @ containers t @ storages t)) = {}"
    "set (map (Pair (Suc 0)) (nodes t)) \<inter>
       set (map (Pair 2) (nodes t @ containers t @ storages t)) = {}"
    by auto
  have "distinct ?ks"
    using 0 1 2 x by (simp only: distinct_append set_append Int_Un_distrib Un_empty simp_thms)
  with mset_eq_imp_distinct_iff [OF eq] have "distinct (map event_key (trace t))"
    by simp
  then show ?thesis by (simp add: distinct_map)
qed

lemma trace_kid:
  assumes "t \<in> set ts"
  shows "\<exists>pre post. concat (map trace ts) = pre @ trace t @ post"
proof -
  from assms obtain ts1 ts2 where "ts = ts1 @ t # ts2"
    by (auto simp: in_set_conv_decomp)
  then have "concat (map trace ts) = concat (map trace ts1) @ trace t @ concat (map trace ts2)"
    by simp
  then show ?thesis by blast
qed

lemma trace_subtree:
  assumes "u \<in> set (subtrees t)"
  shows "\<exists>pre post. trace t = pre @ trace u @ post"
  using assms
proof (induction t)
  case (Leaked a)
  then show ?case by simp
next
  case (Node a f c bs ts d)
  let ?ed = "case d of None \<Rightarrow> [] | Some t \<Rightarrow> trace t"
  let ?tl = "(if c = NULL then [] else [Dealloc c]) @ map Dealloc bs @
      [Store_release a NULL, Dealloc a]"
  have tr: "trace (Node a f c bs ts d) = Call f a # concat (map trace ts) @ ?ed @ ?tl"
    by simp
  from Node.prems consider (self) "u = Node a f c bs ts d"
    | (kid) t where "t \<in> set ts" "u \<in> set (subtrees t)"
    | (dict) t where "d = Some t" "u \<in> set (subtrees t)"
    by (cases d) auto
  then show ?case
  proof cases
    case self
    then have "trace (Node a f c bs ts d) = [] @ trace u @ []" by simp
    then show ?thesis by blast
  next
    case (kid t)
    from Node.IH(1) [OF kid] obtain p1 q1 where 1: "trace t = p1 @ trace u @ q1" by blast
    from trace_kid [OF kid(1)] obtain p2 q2 where
      2: "concat (map trace ts) = p2 @ trace t @ q2" by blast
    have "trace (Node a f c bs ts d) = (Call f a # p2 @ p1) @ trace u @ (q1 @ q2 @ ?ed @ ?tl)"
      unfolding tr 2 1 by simp
    then show ?thesis by blast
  next
    case (dict t)
    then have "t \<in> set_option d" by simp
    from Node.IH(2) [OF this dict(2)] obtain p1 q1 where
      1: "trace t = p1 @ trace u @ q1" by blast
    have "trace (Node a f c bs ts d) =
        (Call f a # concat (map trace ts) @ p1) @ trace u @ (q1 @ ?tl)"
      unfolding tr dict(1) by (simp add: 1)
    then show ?thesis by blast
  qed
qed

lemma trace_ends:
  assumes "live u"
  shows "\<exists>mid. trace u = Call (callback u) (root u) # mid @
     [Store_release (root u) NULL, Dealloc (root u)]"
  using assms by (cases u) simp_all

lemma trace_node:
  assumes "x \<in> set (nodes t)"
  shows "(\<exists>g. Call g x \<in> set (trace t)) \<and> Dealloc x \<in> set (trace t)"
proof -
  from assms obtain u where u: "u \<in> set (subtrees t)" "root u = x"
    by (auto simp: nodes_subtrees)
  from trace_subtree [OF u(1)] obtain pre post where
    t: "trace t = pre @ trace u @ post" by blast
  from trace_ends [OF subtrees_live [OF u(1)]] obtain mid where
    "trace u = Call (callback u) x # mid @ [Store_release x NULL, Dealloc x]"
    unfolding u(2) by blast
  with t show ?thesis by auto
qed

lemma trace_brackets:
  assumes "live u"
  shows "\<exists>mid. trace u = Call (callback u) (root u) # mid @
       [Store_release (root u) NULL, Dealloc (root u)] \<and>
     (\<forall>x \<in> set (nodes u). x \<noteq> root u \<longrightarrow>
        (\<exists>g. Call g x \<in> set mid) \<and> Dealloc x \<in> set mid) \<and>
     (\<forall>b \<in> set (storage u). Dealloc b \<in> set mid) \<and>
     (container u \<noteq> NULL \<longrightarrow> Dealloc (container u) \<in> set mid)"
proof (cases u)
  case (Leaked a)
  with assms show ?thesis by simp
next
  case (Node a f c bs ts d)
  let ?ed = "case d of None \<Rightarrow> [] | Some t \<Rightarrow> trace t"
  let ?mid = "concat (map trace ts) @ ?ed @ (if c = NULL then [] else [Dealloc c]) @
      map Dealloc bs"
  have 1: "trace u = Call (callback u) (root u) # ?mid @
       [Store_release (root u) NULL, Dealloc (root u)]"
    by (simp add: Node)
  have 2: "(\<exists>g. Call g x \<in> set ?mid) \<and> Dealloc x \<in> set ?mid"
    if x: "x \<in> set (nodes u)" "x \<noteq> root u" for x
  proof -
    from x consider (kid) t where "t \<in> set ts" "x \<in> set (nodes t)"
      | (dict) t where "d = Some t" "x \<in> set (nodes t)"
      unfolding Node by (cases d) auto
    then show ?thesis
    proof cases
      case (kid t)
      from trace_node [OF kid(2)] kid(1) show ?thesis by auto
    next
      case (dict t)
      from trace_node [OF dict(2)] dict(1) show ?thesis by auto
    qed
  qed
  have 3: "\<forall>b \<in> set (storage u). Dealloc b \<in> set ?mid"
    by (simp add: Node)
  have 4: "container u \<noteq> NULL \<longrightarrow> Dealloc (container u) \<in> set ?mid"
    by (simp add: Node)
  from 1 2 3 4 show ?thesis by blast
qed

lemma trace_depth_first:
  assumes "u \<in> set (subtrees t)"
  shows "\<exists>es1 es2 es3.
     trace t = es1 @ Call (callback u) (root u) # es2 @
       Store_release (root u) NULL # Dealloc (root u) # es3 \<and>
     (\<forall>x \<in> set (nodes u). x \<noteq> root u \<longrightarrow>
        (\<exists>g. Call g x \<in> set es2) \<and> Dealloc x \<in> set es2) \<and>
     (\<forall>b \<in> set (storage u). Dealloc b \<in> set es2) \<and>
     (container u \<noteq> NULL \<longrightarrow> Dealloc (container u) \<in> set es2)"
proof -
  from trace_subtree [OF assms] obtain pre post where
    t: "trace t = pre @ trace u @ post" by blast
  from trace_brackets [OF subtrees_live [OF assms]] obtain mid where
    u: "trace u = Call (callback u) (root u) # mid @
       [Store_release (root u) NULL, Dealloc (root u)]"
    and mid: "\<forall>x \<in> set (nodes u). x \<noteq> root u \<longrightarrow>
        (\<exists>g. Call g x \<in> set mid) \<and> Dealloc x \<in> set mid"
      "\<forall>b \<in> set (storage u). Dealloc b \<in> set mid"
      "container u \<noteq> NULL \<longrightarrow> Dealloc (container u) \<in> set mid"
    by blast
  have "trace t = pre @ Call (callback u) (root u) # mid @
       Store_release (root u) NULL # Dealloc (root u) # post"
    unfolding t u by simp
  with mid show ?thesis by blast
qed

subsection \<open>The protocol on a tree of live descriptors\<close>

lemma release_schema_protocol:
  assumes "schema_tree own m p t" "live t"
    and "distinct (nodes t @ containers t @ storages t)"
    and "set (nodes t) \<inter> set (leaked t) = {}"
  shows "\<exists>s m' es.
     schemas m p = Some s \<and> ArrowSchema.release s \<noteq> NULL \<and>
     (\<forall>k. height t \<le> k \<longrightarrow>
        release_schema own k p m = Some (m', es) \<and>
        (\<exists>m5 es5. release_schema_body own k p m = Some (m5, es5) \<and>
           schemas m5 p = Some (s\<lparr>ArrowSchema.release := NULL\<rparr>) \<and>
           free_schema p m5 = Some (m', [Dealloc p]) \<and> es = es5 @ [Dealloc p])) \<and>
     released es = nodes t \<and> distinct (released es) \<and> distinct es \<and>
     (\<forall>u \<in> set (subtrees t). \<exists>es1 es2 es3.
        es = es1 @ Call (callback u) (root u) # es2 @
          Store_release (root u) NULL # Dealloc (root u) # es3 \<and>
        (\<forall>x \<in> set (nodes u). x \<noteq> root u \<longrightarrow>
           (\<exists>g. Call g x \<in> set es2) \<and> Dealloc x \<in> set es2) \<and>
        (\<forall>b \<in> set (storage u). Dealloc b \<in> set es2) \<and>
        (container u \<noteq> NULL \<longrightarrow> Dealloc (container u) \<in> set es2)) \<and>
     (\<forall>a \<in> set (nodes t). schemas m' a = None) \<and>
     (\<forall>a. a \<notin> set (nodes t) \<longrightarrow> schemas m' a = schemas m a) \<and>
     (\<forall>c \<in> set (containers t). pointer_arrays m' c = None) \<and>
     (\<forall>c. c \<notin> set (containers t) \<longrightarrow> pointer_arrays m' c = pointer_arrays m c) \<and>
     (\<forall>b \<in> set (storages t). blocks m' b = None) \<and>
     (\<forall>b. b \<notin> set (storages t) \<longrightarrow> blocks m' b = blocks m b) \<and>
     arrays m' = arrays m"
proof -
  let ?m' = "purge_schemas (set (nodes t)) (set (containers t)) (set (storages t)) m"
  from assms(3) have d: "distinct (nodes t)" "distinct (containers t)" "distinct (storages t)"
    by simp_all
  from assms(2) obtain a f c bs ts dt where t: "t = Node a f c bs ts dt"
    by (cases t) simp_all
  have last: "trace t = butlast (trace t) @ [Dealloc p]"
  proof -
    have "p = a" using assms(1) unfolding t by (rule schema_tree_NodeE)
    then show ?thesis unfolding t by (simp add: butlast_append)
  qed
  from release_schema_tree [OF assms(1,2) d(1) assms(4) d(2,3) order_refl]
  obtain s where s: "schemas m p = Some s" "ArrowSchema.release s \<noteq> NULL"
    by blast
  have run: "\<forall>k. height t \<le> k \<longrightarrow>
        release_schema own k p m = Some (?m', trace t) \<and>
        (\<exists>m5 es5. release_schema_body own k p m = Some (m5, es5) \<and>
           schemas m5 p = Some (s\<lparr>ArrowSchema.release := NULL\<rparr>) \<and>
           free_schema p m5 = Some (?m', [Dealloc p]) \<and> trace t = es5 @ [Dealloc p])"
  proof (intro allI impI)
    fix k assume "height t \<le> k"
    from release_schema_tree [OF assms(1,2) d(1) assms(4) d(2,3) this] s(1) last
    show "release_schema own k p m = Some (?m', trace t) \<and>
        (\<exists>m5 es5. release_schema_body own k p m = Some (m5, es5) \<and>
           schemas m5 p = Some (s\<lparr>ArrowSchema.release := NULL\<rparr>) \<and>
           free_schema p m5 = Some (?m', [Dealloc p]) \<and> trace t = es5 @ [Dealloc p])"
      by auto
  qed
  have order: "\<forall>u \<in> set (subtrees t). \<exists>es1 es2 es3.
        trace t = es1 @ Call (callback u) (root u) # es2 @
          Store_release (root u) NULL # Dealloc (root u) # es3 \<and>
        (\<forall>x \<in> set (nodes u). x \<noteq> root u \<longrightarrow>
           (\<exists>g. Call g x \<in> set es2) \<and> Dealloc x \<in> set es2) \<and>
        (\<forall>b \<in> set (storage u). Dealloc b \<in> set es2) \<and>
        (container u \<noteq> NULL \<longrightarrow> Dealloc (container u) \<in> set es2)"
    using trace_depth_first by blast
  have mem: "(\<forall>a \<in> set (nodes t). schemas ?m' a = None) \<and>
     (\<forall>a. a \<notin> set (nodes t) \<longrightarrow> schemas ?m' a = schemas m a) \<and>
     (\<forall>c \<in> set (containers t). pointer_arrays ?m' c = None) \<and>
     (\<forall>c. c \<notin> set (containers t) \<longrightarrow> pointer_arrays ?m' c = pointer_arrays m c) \<and>
     (\<forall>b \<in> set (storages t). blocks ?m' b = None) \<and>
     (\<forall>b. b \<notin> set (storages t) \<longrightarrow> blocks ?m' b = blocks m b) \<and>
     arrays ?m' = arrays m"
    by (simp add: purge_schemas_sel)
  have rel: "released (trace t) = nodes t \<and> distinct (released (trace t)) \<and>
     distinct (trace t)"
    using d(1) distinct_trace [OF assms(3)] by (simp add: released_trace)
  note r = rel [THEN conjunct1] rel [THEN conjunct2, THEN conjunct1]
    rel [THEN conjunct2, THEN conjunct2]
  note q = mem [THEN conjunct1] mem [THEN conjunct2, THEN conjunct1]
    mem [THEN conjunct2, THEN conjunct2, THEN conjunct1]
    mem [THEN conjunct2, THEN conjunct2, THEN conjunct2, THEN conjunct1]
    mem [THEN conjunct2, THEN conjunct2, THEN conjunct2, THEN conjunct2, THEN conjunct1]
    mem [THEN conjunct2, THEN conjunct2, THEN conjunct2, THEN conjunct2, THEN conjunct2,
      THEN conjunct1]
    mem [THEN conjunct2, THEN conjunct2, THEN conjunct2, THEN conjunct2, THEN conjunct2,
      THEN conjunct2]
  from s run r order q show ?thesis
    by (intro exI [of _ s] exI [of _ ?m'] exI [of _ "trace t"] conjI)
qed

lemma release_array_protocol:
  assumes "array_tree own m p t" "live t"
    and "distinct (nodes t @ containers t @ storages t)"
    and "set (nodes t) \<inter> set (leaked t) = {}"
  shows "\<exists>s m' es.
     arrays m p = Some s \<and> ArrowArray.release s \<noteq> NULL \<and>
     (\<forall>k. height t \<le> k \<longrightarrow>
        release_array own k p m = Some (m', es) \<and>
        (\<exists>m5 es5. release_array_body own k p m = Some (m5, es5) \<and>
           arrays m5 p = Some (s\<lparr>ArrowArray.release := NULL\<rparr>) \<and>
           free_array p m5 = Some (m', [Dealloc p]) \<and> es = es5 @ [Dealloc p])) \<and>
     released es = nodes t \<and> distinct (released es) \<and> distinct es \<and>
     (\<forall>u \<in> set (subtrees t). \<exists>es1 es2 es3.
        es = es1 @ Call (callback u) (root u) # es2 @
          Store_release (root u) NULL # Dealloc (root u) # es3 \<and>
        (\<forall>x \<in> set (nodes u). x \<noteq> root u \<longrightarrow>
           (\<exists>g. Call g x \<in> set es2) \<and> Dealloc x \<in> set es2) \<and>
        (\<forall>b \<in> set (storage u). Dealloc b \<in> set es2) \<and>
        (container u \<noteq> NULL \<longrightarrow> Dealloc (container u) \<in> set es2)) \<and>
     (\<forall>a \<in> set (nodes t). arrays m' a = None) \<and>
     (\<forall>a. a \<notin> set (nodes t) \<longrightarrow> arrays m' a = arrays m a) \<and>
     (\<forall>c \<in> set (containers t). pointer_arrays m' c = None) \<and>
     (\<forall>c. c \<notin> set (containers t) \<longrightarrow> pointer_arrays m' c = pointer_arrays m c) \<and>
     (\<forall>b \<in> set (storages t). blocks m' b = None) \<and>
     (\<forall>b. b \<notin> set (storages t) \<longrightarrow> blocks m' b = blocks m b) \<and>
     schemas m' = schemas m"
proof -
  let ?m' = "purge_arrays (set (nodes t)) (set (containers t)) (set (storages t)) m"
  from assms(3) have d: "distinct (nodes t)" "distinct (containers t)" "distinct (storages t)"
    by simp_all
  from assms(2) obtain a f c bs ts dt where t: "t = Node a f c bs ts dt"
    by (cases t) simp_all
  have last: "trace t = butlast (trace t) @ [Dealloc p]"
  proof -
    have "p = a" using assms(1) unfolding t by (rule array_tree_NodeE)
    then show ?thesis unfolding t by (simp add: butlast_append)
  qed
  from release_array_tree [OF assms(1,2) d(1) assms(4) d(2,3) order_refl]
  obtain s where s: "arrays m p = Some s" "ArrowArray.release s \<noteq> NULL"
    by blast
  have run: "\<forall>k. height t \<le> k \<longrightarrow>
        release_array own k p m = Some (?m', trace t) \<and>
        (\<exists>m5 es5. release_array_body own k p m = Some (m5, es5) \<and>
           arrays m5 p = Some (s\<lparr>ArrowArray.release := NULL\<rparr>) \<and>
           free_array p m5 = Some (?m', [Dealloc p]) \<and> trace t = es5 @ [Dealloc p])"
  proof (intro allI impI)
    fix k assume "height t \<le> k"
    from release_array_tree [OF assms(1,2) d(1) assms(4) d(2,3) this] s(1) last
    show "release_array own k p m = Some (?m', trace t) \<and>
        (\<exists>m5 es5. release_array_body own k p m = Some (m5, es5) \<and>
           arrays m5 p = Some (s\<lparr>ArrowArray.release := NULL\<rparr>) \<and>
           free_array p m5 = Some (?m', [Dealloc p]) \<and> trace t = es5 @ [Dealloc p])"
      by auto
  qed
  have order: "\<forall>u \<in> set (subtrees t). \<exists>es1 es2 es3.
        trace t = es1 @ Call (callback u) (root u) # es2 @
          Store_release (root u) NULL # Dealloc (root u) # es3 \<and>
        (\<forall>x \<in> set (nodes u). x \<noteq> root u \<longrightarrow>
           (\<exists>g. Call g x \<in> set es2) \<and> Dealloc x \<in> set es2) \<and>
        (\<forall>b \<in> set (storage u). Dealloc b \<in> set es2) \<and>
        (container u \<noteq> NULL \<longrightarrow> Dealloc (container u) \<in> set es2)"
    using trace_depth_first by blast
  have mem: "(\<forall>a \<in> set (nodes t). arrays ?m' a = None) \<and>
     (\<forall>a. a \<notin> set (nodes t) \<longrightarrow> arrays ?m' a = arrays m a) \<and>
     (\<forall>c \<in> set (containers t). pointer_arrays ?m' c = None) \<and>
     (\<forall>c. c \<notin> set (containers t) \<longrightarrow> pointer_arrays ?m' c = pointer_arrays m c) \<and>
     (\<forall>b \<in> set (storages t). blocks ?m' b = None) \<and>
     (\<forall>b. b \<notin> set (storages t) \<longrightarrow> blocks ?m' b = blocks m b) \<and>
     schemas ?m' = schemas m"
    by (simp add: purge_arrays_sel)
  have rel: "released (trace t) = nodes t \<and> distinct (released (trace t)) \<and>
     distinct (trace t)"
    using d(1) distinct_trace [OF assms(3)] by (simp add: released_trace)
  note r = rel [THEN conjunct1] rel [THEN conjunct2, THEN conjunct1]
    rel [THEN conjunct2, THEN conjunct2]
  note q = mem [THEN conjunct1] mem [THEN conjunct2, THEN conjunct1]
    mem [THEN conjunct2, THEN conjunct2, THEN conjunct1]
    mem [THEN conjunct2, THEN conjunct2, THEN conjunct2, THEN conjunct1]
    mem [THEN conjunct2, THEN conjunct2, THEN conjunct2, THEN conjunct2, THEN conjunct1]
    mem [THEN conjunct2, THEN conjunct2, THEN conjunct2, THEN conjunct2, THEN conjunct2,
      THEN conjunct1]
    mem [THEN conjunct2, THEN conjunct2, THEN conjunct2, THEN conjunct2, THEN conjunct2,
      THEN conjunct2]
  from s run r order q show ?thesis
    by (intro exI [of _ s] exI [of _ ?m'] exI [of _ "trace t"] conjI)
qed

lemma mem2_tree:
  "schema_tree own2 mem2 30 shape2 \<and> live shape2 \<and>
   distinct (nodes shape2 @ containers shape2 @ storages shape2) \<and>
   set (nodes shape2) \<inter> set (leaked shape2) = {}"
  by (simp add: mem2_def shape2_def own2_def schema_leaf_def schema_storage_def
      owned_storage_def pointer_array_prefix_def NULL_def)

lemma mem3_tree:
  "array_tree own3 mem3 40 shape3 \<and> live shape3 \<and>
   distinct (nodes shape3 @ containers shape3 @ storages shape3) \<and>
   set (nodes shape3) \<inter> set (leaked shape3) = {}"
  by (simp add: mem3_def shape3_def own3_def array_leaf_def array_storage_def
      owned_storage_def pointer_array_prefix_def NULL_def)

lemma mem2_run:
  "map_option snd (release_schema own2 3 30 mem2) = Some
     [Call 600 30,
      Call 601 31, Dealloc 111, Store_release 31 NULL, Dealloc 31,
      Call 602 32,
      Call 603 33, Dealloc 113, Store_release 33 NULL, Dealloc 33,
      Dealloc 112, Store_release 32 NULL, Dealloc 32,
      Dealloc 300, Dealloc 110, Dealloc 114, Store_release 30 NULL, Dealloc 30]"
  by (simp add: eval_nat_numeral mem2_def own2_def schema_leaf_def schema_storage_def
      pointer_array_prefix_def NULL_def free_pointer_array_def store_schema_release_def
      free_schema_def)

lemma mem3_run:
  "map_option snd (release_array own3 2 40 mem3) = Some
     [Call 700 40,
      Call 701 41, Store_release 41 NULL, Dealloc 41,
      Call 702 42, Store_release 42 NULL, Dealloc 42,
      Dealloc 400, Dealloc 410, Store_release 40 NULL, Dealloc 40]"
  by (simp add: eval_nat_numeral mem3_def own3_def array_leaf_def array_storage_def
      pointer_array_prefix_def NULL_def free_pointer_array_def store_array_release_def
      free_array_def)

text \<open>
  C3. Against the release protocol of section 4.1 of the specification (the release
  callbacks are not in the C sources). Let \<open>p\<close> be a live node: the memory holds at
  \<open>p\<close> a descriptor with a non-null \<open>release\<close>, and below it the tree of what it
  owns, in which a child or dictionary is either live itself or has a null \<open>release\<close>
  (then it is leaked: it is owned by nobody and is no part of what is released).
  Ownership is exclusive: no live descriptor, children container or owned block occurs
  twice, and no leaked descriptor is also a live one. Then one invocation of release
  on \<open>p\<close> returns, for every bound on the call depth of at least the height of the
  tree, and:

  \<^item> it calls the release of the live nodes of the tree and of nothing else, each
    exactly once: the nodes released are the live nodes, in depth-first order and
    without repetition, and no effect occurs twice at all;
  \<^item> for every live node \<open>u\<close> of the tree, the release of \<open>u\<close> begins with its call
    and ends with the store of null to the \<open>release\<close> field of \<open>u\<close> followed at once
    by the deallocation of \<open>u\<close>; every live node below \<open>u\<close> (its children and its
    dictionary, transitively) is called and deallocated in between, children before
    parent, and so are the children container and the owned storage of \<open>u\<close>;
  \<^item> the store is a store: the run up to the deallocation of \<open>p\<close> (the body of the
    release) ends in a memory where the descriptor at \<open>p\<close> is still allocated and is
    the descriptor it was with \<open>release\<close> set to null, and the deallocation of \<open>p\<close>
    is the one step from there to the final memory;
  \<^item> afterwards exactly the live nodes, the containers and the owned storage of the
    tree are deallocated; every other descriptor (a leaked one included), pointer
    array and block is as before.

  The same holds for array descriptors.
\<close>

theorem release_protocol:
  "(schema_tree own m p t \<and> live t \<and>
    distinct (nodes t @ containers t @ storages t) \<and>
    set (nodes t) \<inter> set (leaked t) = {} \<longrightarrow>
     (\<exists>s m' es.
       schemas m p = Some s \<and> ArrowSchema.release s \<noteq> NULL \<and>
       (\<forall>k. height t \<le> k \<longrightarrow>
          release_schema own k p m = Some (m', es) \<and>
          (\<exists>m5 es5. release_schema_body own k p m = Some (m5, es5) \<and>
             schemas m5 p = Some (s\<lparr>ArrowSchema.release := NULL\<rparr>) \<and>
             free_schema p m5 = Some (m', [Dealloc p]) \<and> es = es5 @ [Dealloc p])) \<and>
       released es = nodes t \<and> distinct (released es) \<and> distinct es \<and>
       (\<forall>u \<in> set (subtrees t). \<exists>es1 es2 es3.
          es = es1 @ Call (callback u) (root u) # es2 @
            Store_release (root u) NULL # Dealloc (root u) # es3 \<and>
          (\<forall>x \<in> set (nodes u). x \<noteq> root u \<longrightarrow>
             (\<exists>g. Call g x \<in> set es2) \<and> Dealloc x \<in> set es2) \<and>
          (\<forall>b \<in> set (storage u). Dealloc b \<in> set es2) \<and>
          (container u \<noteq> NULL \<longrightarrow> Dealloc (container u) \<in> set es2)) \<and>
       (\<forall>a \<in> set (nodes t). schemas m' a = None) \<and>
       (\<forall>a. a \<notin> set (nodes t) \<longrightarrow> schemas m' a = schemas m a) \<and>
       (\<forall>c \<in> set (containers t). pointer_arrays m' c = None) \<and>
       (\<forall>c. c \<notin> set (containers t) \<longrightarrow> pointer_arrays m' c = pointer_arrays m c) \<and>
       (\<forall>b \<in> set (storages t). blocks m' b = None) \<and>
       (\<forall>b. b \<notin> set (storages t) \<longrightarrow> blocks m' b = blocks m b) \<and>
       arrays m' = arrays m)) \<and>
   (array_tree own' n r v \<and> live v \<and>
    distinct (nodes v @ containers v @ storages v) \<and>
    set (nodes v) \<inter> set (leaked v) = {} \<longrightarrow>
     (\<exists>s n' es.
       arrays n r = Some s \<and> ArrowArray.release s \<noteq> NULL \<and>
       (\<forall>k. height v \<le> k \<longrightarrow>
          release_array own' k r n = Some (n', es) \<and>
          (\<exists>n5 es5. release_array_body own' k r n = Some (n5, es5) \<and>
             arrays n5 r = Some (s\<lparr>ArrowArray.release := NULL\<rparr>) \<and>
             free_array r n5 = Some (n', [Dealloc r]) \<and> es = es5 @ [Dealloc r])) \<and>
       released es = nodes v \<and> distinct (released es) \<and> distinct es \<and>
       (\<forall>u \<in> set (subtrees v). \<exists>es1 es2 es3.
          es = es1 @ Call (callback u) (root u) # es2 @
            Store_release (root u) NULL # Dealloc (root u) # es3 \<and>
          (\<forall>x \<in> set (nodes u). x \<noteq> root u \<longrightarrow>
             (\<exists>g. Call g x \<in> set es2) \<and> Dealloc x \<in> set es2) \<and>
          (\<forall>b \<in> set (storage u). Dealloc b \<in> set es2) \<and>
          (container u \<noteq> NULL \<longrightarrow> Dealloc (container u) \<in> set es2)) \<and>
       (\<forall>a \<in> set (nodes v). arrays n' a = None) \<and>
       (\<forall>a. a \<notin> set (nodes v) \<longrightarrow> arrays n' a = arrays n a) \<and>
       (\<forall>c \<in> set (containers v). pointer_arrays n' c = None) \<and>
       (\<forall>c. c \<notin> set (containers v) \<longrightarrow> pointer_arrays n' c = pointer_arrays n c) \<and>
       (\<forall>b \<in> set (storages v). blocks n' b = None) \<and>
       (\<forall>b. b \<notin> set (storages v) \<longrightarrow> blocks n' b = blocks n b) \<and>
       schemas n' = schemas n))"
proof (rule conjI; rule impI)
  assume h: "schema_tree own m p t \<and> live t \<and>
    distinct (nodes t @ containers t @ storages t) \<and>
    set (nodes t) \<inter> set (leaked t) = {}"
  note hs = h [THEN conjunct1] h [THEN conjunct2, THEN conjunct1]
    h [THEN conjunct2, THEN conjunct2, THEN conjunct1]
    h [THEN conjunct2, THEN conjunct2, THEN conjunct2]
  from hs show "\<exists>s m' es.
       schemas m p = Some s \<and> ArrowSchema.release s \<noteq> NULL \<and>
       (\<forall>k. height t \<le> k \<longrightarrow>
          release_schema own k p m = Some (m', es) \<and>
          (\<exists>m5 es5. release_schema_body own k p m = Some (m5, es5) \<and>
             schemas m5 p = Some (s\<lparr>ArrowSchema.release := NULL\<rparr>) \<and>
             free_schema p m5 = Some (m', [Dealloc p]) \<and> es = es5 @ [Dealloc p])) \<and>
       released es = nodes t \<and> distinct (released es) \<and> distinct es \<and>
       (\<forall>u \<in> set (subtrees t). \<exists>es1 es2 es3.
          es = es1 @ Call (callback u) (root u) # es2 @
            Store_release (root u) NULL # Dealloc (root u) # es3 \<and>
          (\<forall>x \<in> set (nodes u). x \<noteq> root u \<longrightarrow>
             (\<exists>g. Call g x \<in> set es2) \<and> Dealloc x \<in> set es2) \<and>
          (\<forall>b \<in> set (storage u). Dealloc b \<in> set es2) \<and>
          (container u \<noteq> NULL \<longrightarrow> Dealloc (container u) \<in> set es2)) \<and>
       (\<forall>a \<in> set (nodes t). schemas m' a = None) \<and>
       (\<forall>a. a \<notin> set (nodes t) \<longrightarrow> schemas m' a = schemas m a) \<and>
       (\<forall>c \<in> set (containers t). pointer_arrays m' c = None) \<and>
       (\<forall>c. c \<notin> set (containers t) \<longrightarrow> pointer_arrays m' c = pointer_arrays m c) \<and>
       (\<forall>b \<in> set (storages t). blocks m' b = None) \<and>
       (\<forall>b. b \<notin> set (storages t) \<longrightarrow> blocks m' b = blocks m b) \<and>
       arrays m' = arrays m"
    by (rule release_schema_protocol)
next
  assume h: "array_tree own' n r v \<and> live v \<and>
    distinct (nodes v @ containers v @ storages v) \<and>
    set (nodes v) \<inter> set (leaked v) = {}"
  note hs = h [THEN conjunct1] h [THEN conjunct2, THEN conjunct1]
    h [THEN conjunct2, THEN conjunct2, THEN conjunct1]
    h [THEN conjunct2, THEN conjunct2, THEN conjunct2]
  from hs show "\<exists>s n' es.
       arrays n r = Some s \<and> ArrowArray.release s \<noteq> NULL \<and>
       (\<forall>k. height v \<le> k \<longrightarrow>
          release_array own' k r n = Some (n', es) \<and>
          (\<exists>n5 es5. release_array_body own' k r n = Some (n5, es5) \<and>
             arrays n5 r = Some (s\<lparr>ArrowArray.release := NULL\<rparr>) \<and>
             free_array r n5 = Some (n', [Dealloc r]) \<and> es = es5 @ [Dealloc r])) \<and>
       released es = nodes v \<and> distinct (released es) \<and> distinct es \<and>
       (\<forall>u \<in> set (subtrees v). \<exists>es1 es2 es3.
          es = es1 @ Call (callback u) (root u) # es2 @
            Store_release (root u) NULL # Dealloc (root u) # es3 \<and>
          (\<forall>x \<in> set (nodes u). x \<noteq> root u \<longrightarrow>
             (\<exists>g. Call g x \<in> set es2) \<and> Dealloc x \<in> set es2) \<and>
          (\<forall>b \<in> set (storage u). Dealloc b \<in> set es2) \<and>
          (container u \<noteq> NULL \<longrightarrow> Dealloc (container u) \<in> set es2)) \<and>
       (\<forall>a \<in> set (nodes v). arrays n' a = None) \<and>
       (\<forall>a. a \<notin> set (nodes v) \<longrightarrow> arrays n' a = arrays n a) \<and>
       (\<forall>c \<in> set (containers v). pointer_arrays n' c = None) \<and>
       (\<forall>c. c \<notin> set (containers v) \<longrightarrow> pointer_arrays n' c = pointer_arrays n c) \<and>
       (\<forall>b \<in> set (storages v). blocks n' b = None) \<and>
       (\<forall>b. b \<notin> set (storages v) \<longrightarrow> blocks n' b = blocks n b) \<and>
       schemas n' = schemas n"
    by (rule release_array_protocol)
qed

text \<open>
  The theorem at the schema tree of \<open>mem2\<close> (a live struct with two live fields, one
  of them dictionary-encoded, and a third field whose callback has been cleared) and
  at the array tree of \<open>mem3\<close> (one child and a dictionary), with the effects of the
  two runs written out. In \<open>mem2\<close> the cleared field at 34 and its child at 35 stay
  as they are, and so does the block 120, which the producer does not own.
\<close>

theorem release_protocol_witness:
  "(schema_tree own2 mem2 30 shape2 \<and> live shape2 \<and>
    distinct (nodes shape2 @ containers shape2 @ storages shape2) \<and>
    set (nodes shape2) \<inter> set (leaked shape2) = {}) \<and>
   (\<exists>m'. release_schema own2 3 30 mem2 = Some (m',
      [Call 600 30,
       Call 601 31, Dealloc 111, Store_release 31 NULL, Dealloc 31,
       Call 602 32,
       Call 603 33, Dealloc 113, Store_release 33 NULL, Dealloc 33,
       Dealloc 112, Store_release 32 NULL, Dealloc 32,
       Dealloc 300, Dealloc 110, Dealloc 114, Store_release 30 NULL, Dealloc 30]) \<and>
      (\<exists>m5 es5. release_schema_body own2 3 30 mem2 = Some (m5, es5) \<and>
         map_option ArrowSchema.release (schemas mem2 30) = Some 600 \<and>
         map_option ArrowSchema.release (schemas m5 30) = Some NULL \<and>
         free_schema 30 m5 = Some (m', [Dealloc 30])) \<and>
      schemas m' 30 = None \<and> schemas m' 31 = None \<and> schemas m' 32 = None \<and>
      schemas m' 33 = None \<and>
      schemas m' 34 = schemas mem2 34 \<and> schemas m' 34 \<noteq> None \<and>
      schemas m' 35 = schemas mem2 35 \<and> schemas m' 35 \<noteq> None \<and>
      blocks m' 110 = None \<and> blocks m' 114 = None \<and> blocks m' 120 = Some [120, 0] \<and>
      pointer_arrays m' 300 = None \<and> pointer_arrays m' 301 = Some [35] \<and>
      arrays m' 20 = Some array0) \<and>
   (array_tree own3 mem3 40 shape3 \<and> live shape3 \<and>
    distinct (nodes shape3 @ containers shape3 @ storages shape3) \<and>
    set (nodes shape3) \<inter> set (leaked shape3) = {}) \<and>
   (\<exists>n'. release_array own3 2 40 mem3 = Some (n',
      [Call 700 40,
       Call 701 41, Store_release 41 NULL, Dealloc 41,
       Call 702 42, Store_release 42 NULL, Dealloc 42,
       Dealloc 400, Dealloc 410, Store_release 40 NULL, Dealloc 40]) \<and>
      (\<exists>n5 es5. release_array_body own3 2 40 mem3 = Some (n5, es5) \<and>
         map_option ArrowArray.release (arrays mem3 40) = Some 700 \<and>
         map_option ArrowArray.release (arrays n5 40) = Some NULL \<and>
         free_array 40 n5 = Some (n', [Dealloc 40])) \<and>
      arrays n' 40 = None \<and> arrays n' 41 = None \<and> arrays n' 42 = None \<and>
      blocks n' 410 = None \<and> pointer_arrays n' 400 = None \<and>
      schemas n' 10 = Some schema0)"
proof -
  note t = release_protocol [of own2 mem2 30 shape2 own3 mem3 40 shape3]
  from t [THEN conjunct1, THEN mp, OF mem2_tree]
  obtain s m' es where
    s0: "schemas mem2 30 = Some s"
    and s1: "\<forall>k. height shape2 \<le> k \<longrightarrow>
          release_schema own2 k 30 mem2 = Some (m', es) \<and>
          (\<exists>m5 es5. release_schema_body own2 k 30 mem2 = Some (m5, es5) \<and>
             schemas m5 30 = Some (s\<lparr>ArrowSchema.release := NULL\<rparr>) \<and>
             free_schema 30 m5 = Some (m', [Dealloc 30]) \<and> es = es5 @ [Dealloc 30])"
    and s2: "\<forall>a \<in> set (nodes shape2). schemas m' a = None"
      "\<forall>a. a \<notin> set (nodes shape2) \<longrightarrow> schemas m' a = schemas mem2 a"
      "\<forall>c \<in> set (containers shape2). pointer_arrays m' c = None"
      "\<forall>c. c \<notin> set (containers shape2) \<longrightarrow> pointer_arrays m' c = pointer_arrays mem2 c"
      "\<forall>b \<in> set (storages shape2). blocks m' b = None"
      "\<forall>b. b \<notin> set (storages shape2) \<longrightarrow> blocks m' b = blocks mem2 b"
      "arrays m' = arrays mem2"
    by (elim exE conjE) (rule that)
  have "height shape2 \<le> 3" by (simp add: shape2_def)
  with s1 obtain m5 es5 where s4: "release_schema own2 3 30 mem2 = Some (m', es)"
    and s5: "release_schema_body own2 3 30 mem2 = Some (m5, es5)"
      "schemas m5 30 = Some (s\<lparr>ArrowSchema.release := NULL\<rparr>)"
      "free_schema 30 m5 = Some (m', [Dealloc 30])"
    by blast
  from s4 mem2_run have s6: "es =
      [Call 600 30,
       Call 601 31, Dealloc 111, Store_release 31 NULL, Dealloc 31,
       Call 602 32,
       Call 603 33, Dealloc 113, Store_release 33 NULL, Dealloc 33,
       Dealloc 112, Store_release 32 NULL, Dealloc 32,
       Dealloc 300, Dealloc 110, Dealloc 114, Store_release 30 NULL, Dealloc 30]"
    by simp
  have s7: "map_option ArrowSchema.release (schemas mem2 30) = Some 600"
    by (simp add: mem2_def schema_leaf_def)
  from s5(2) have s8: "map_option ArrowSchema.release (schemas m5 30) = Some NULL"
    by simp
  from s2 have s9: "schemas m' 30 = None \<and> schemas m' 31 = None \<and> schemas m' 32 = None \<and>
      schemas m' 33 = None \<and>
      schemas m' 34 = schemas mem2 34 \<and> schemas m' 34 \<noteq> None \<and>
      schemas m' 35 = schemas mem2 35 \<and> schemas m' 35 \<noteq> None \<and>
      blocks m' 110 = None \<and> blocks m' 114 = None \<and> blocks m' 120 = Some [120, 0] \<and>
      pointer_arrays m' 300 = None \<and> pointer_arrays m' 301 = Some [35] \<and>
      arrays m' 20 = Some array0"
    by (simp add: shape2_def mem2_def NULL_def)
  from t [THEN conjunct2, THEN mp, OF mem3_tree]
  obtain z n' fs where
    a0: "arrays mem3 40 = Some z"
    and a1: "\<forall>k. height shape3 \<le> k \<longrightarrow>
          release_array own3 k 40 mem3 = Some (n', fs) \<and>
          (\<exists>n5 es5. release_array_body own3 k 40 mem3 = Some (n5, es5) \<and>
             arrays n5 40 = Some (z\<lparr>ArrowArray.release := NULL\<rparr>) \<and>
             free_array 40 n5 = Some (n', [Dealloc 40]) \<and> fs = es5 @ [Dealloc 40])"
    and a2: "\<forall>a \<in> set (nodes shape3). arrays n' a = None"
      "\<forall>c \<in> set (containers shape3). pointer_arrays n' c = None"
      "\<forall>b \<in> set (storages shape3). blocks n' b = None"
      "schemas n' = schemas mem3"
    by (elim exE conjE) (rule that)
  have "height shape3 \<le> 2" by (simp add: shape3_def)
  with a1 obtain n5 fs5 where a4: "release_array own3 2 40 mem3 = Some (n', fs)"
    and a5: "release_array_body own3 2 40 mem3 = Some (n5, fs5)"
      "arrays n5 40 = Some (z\<lparr>ArrowArray.release := NULL\<rparr>)"
      "free_array 40 n5 = Some (n', [Dealloc 40])"
    by blast
  from a4 mem3_run have a6: "fs =
      [Call 700 40,
       Call 701 41, Store_release 41 NULL, Dealloc 41,
       Call 702 42, Store_release 42 NULL, Dealloc 42,
       Dealloc 400, Dealloc 410, Store_release 40 NULL, Dealloc 40]"
    by simp
  have a7: "map_option ArrowArray.release (arrays mem3 40) = Some 700"
    by (simp add: mem3_def array_leaf_def)
  from a5(2) have a8: "map_option ArrowArray.release (arrays n5 40) = Some NULL"
    by simp
  from a2 have a9: "arrays n' 40 = None \<and> arrays n' 41 = None \<and> arrays n' 42 = None \<and>
      blocks n' 410 = None \<and> pointer_arrays n' 400 = None \<and>
      schemas n' 10 = Some schema0"
    by (simp add: shape3_def mem3_def NULL_def)
  have sb: "\<exists>m5 es5. release_schema_body own2 3 30 mem2 = Some (m5, es5) \<and>
         map_option ArrowSchema.release (schemas mem2 30) = Some 600 \<and>
         map_option ArrowSchema.release (schemas m5 30) = Some NULL \<and>
         free_schema 30 m5 = Some (m', [Dealloc 30])"
    by (intro exI conjI, rule s5(1), rule s7, rule s8, rule s5(3))
  have ab: "\<exists>n5 es5. release_array_body own3 2 40 mem3 = Some (n5, es5) \<and>
         map_option ArrowArray.release (arrays mem3 40) = Some 700 \<and>
         map_option ArrowArray.release (arrays n5 40) = Some NULL \<and>
         free_array 40 n5 = Some (n', [Dealloc 40])"
    by (intro exI conjI, rule a5(1), rule a7, rule a8, rule a5(3))
  note sr = s4 [unfolded s6]
  note ar = a4 [unfolded a6]
  show ?thesis
  proof (intro conjI [OF mem2_tree] conjI [OF _ conjI [OF mem3_tree]])
    show "\<exists>m'. release_schema own2 3 30 mem2 = Some (m',
      [Call 600 30,
       Call 601 31, Dealloc 111, Store_release 31 NULL, Dealloc 31,
       Call 602 32,
       Call 603 33, Dealloc 113, Store_release 33 NULL, Dealloc 33,
       Dealloc 112, Store_release 32 NULL, Dealloc 32,
       Dealloc 300, Dealloc 110, Dealloc 114, Store_release 30 NULL, Dealloc 30]) \<and>
      (\<exists>m5 es5. release_schema_body own2 3 30 mem2 = Some (m5, es5) \<and>
         map_option ArrowSchema.release (schemas mem2 30) = Some 600 \<and>
         map_option ArrowSchema.release (schemas m5 30) = Some NULL \<and>
         free_schema 30 m5 = Some (m', [Dealloc 30])) \<and>
      schemas m' 30 = None \<and> schemas m' 31 = None \<and> schemas m' 32 = None \<and>
      schemas m' 33 = None \<and>
      schemas m' 34 = schemas mem2 34 \<and> schemas m' 34 \<noteq> None \<and>
      schemas m' 35 = schemas mem2 35 \<and> schemas m' 35 \<noteq> None \<and>
      blocks m' 110 = None \<and> blocks m' 114 = None \<and> blocks m' 120 = Some [120, 0] \<and>
      pointer_arrays m' 300 = None \<and> pointer_arrays m' 301 = Some [35] \<and>
      arrays m' 20 = Some array0"
      by (rule exI [where x = m'], rule conjI [OF sr conjI [OF sb s9]])
    show "\<exists>n'. release_array own3 2 40 mem3 = Some (n',
      [Call 700 40,
       Call 701 41, Store_release 41 NULL, Dealloc 41,
       Call 702 42, Store_release 42 NULL, Dealloc 42,
       Dealloc 400, Dealloc 410, Store_release 40 NULL, Dealloc 40]) \<and>
      (\<exists>n5 es5. release_array_body own3 2 40 mem3 = Some (n5, es5) \<and>
         map_option ArrowArray.release (arrays mem3 40) = Some 700 \<and>
         map_option ArrowArray.release (arrays n5 40) = Some NULL \<and>
         free_array 40 n5 = Some (n', [Dealloc 40])) \<and>
      arrays n' 40 = None \<and> arrays n' 41 = None \<and> arrays n' 42 = None \<and>
      blocks n' 410 = None \<and> pointer_arrays n' 400 = None \<and>
      schemas n' 10 = Some schema0"
      by (rule exI [where x = n'], rule conjI [OF ar conjI [OF ab a9]])
  qed
qed

end
